theory Spec2Isabelle
  imports Complex_Main "HOL-Library.Word" "HOL-Library.Multiset"
begin

unbundle bit_operations_syntax

section \<open>Data model: IEEE-754 binary32 values as bit patterns\<close>

text \<open>
  The quantization helpers of \<^verbatim>\<open>meshoptimizer.hpp\<close> take a C++ \<^verbatim>\<open>float\<close>. A float
  is modelled by its 32-bit pattern (what the union in \<^verbatim>\<open>quantizeHalf\<close> reads):
  bit 31 is the sign, bits 30..23 the biased exponent, bits 22..0 the mantissa.
  C++ \<^verbatim>\<open>int\<close> and \<^verbatim>\<open>unsigned int\<close> are 32-bit words, \<^verbatim>\<open>unsigned short\<close> is a 16-bit word.
\<close>

type_synonym float32 = "32 word"

definition f32_sign :: "float32 \<Rightarrow> bool" where
  "f32_sign ui = bit ui 31"

definition f32_exponent :: "float32 \<Rightarrow> nat" where
  "f32_exponent ui = unat (drop_bit 23 ui AND 0xff)"

definition f32_mantissa :: "float32 \<Rightarrow> nat" where
  "f32_mantissa ui = unat (ui AND 0x7fffff)"

definition f32_is_nan :: "float32 \<Rightarrow> bool" where
  "f32_is_nan ui = (f32_exponent ui = 255 \<and> f32_mantissa ui \<noteq> 0)"

definition f32_is_inf :: "float32 \<Rightarrow> bool" where
  "f32_is_inf ui = (f32_exponent ui = 255 \<and> f32_mantissa ui = 0)"

definition f32_is_finite :: "float32 \<Rightarrow> bool" where
  "f32_is_finite ui = (f32_exponent ui < 255)"

text \<open>
  The magnitude a finite pattern denotes: \<open>m / 2^149\<close> for a denormal (exponent field 0),
  \<open>(2^23 + m) * 2^(e - 150)\<close> for a normal number.
\<close>

definition f32_magnitude :: "float32 \<Rightarrow> real" where
  "f32_magnitude ui =
     (if f32_exponent ui = 0 then real (f32_mantissa ui) / 2 ^ 149
      else real (2 ^ 23 + f32_mantissa ui) * 2 ^ (f32_exponent ui - 1) / 2 ^ 149)"

definition f32_value :: "float32 \<Rightarrow> real" where
  "f32_value ui = (if f32_sign ui then - f32_magnitude ui else f32_magnitude ui)"

text \<open>
  The comparison \<^verbatim>\<open>a <= b\<close> of two floats: false when either is a NaN, infinities at
  the two ends, the values compared otherwise (so \<^verbatim>\<open>-0.0 <= +0.0\<close> and back).
\<close>

definition f32_le :: "float32 \<Rightarrow> float32 \<Rightarrow> bool" where
  "f32_le a b =
     (if f32_is_nan a then False
      else if f32_is_nan b then False
      else if f32_is_inf a then (if f32_sign a then True else f32_is_inf b \<and> \<not> f32_sign b)
      else if f32_is_inf b then \<not> f32_sign b
      else f32_value a \<le> f32_value b)"

text \<open>The low 31 bits: exponent and mantissa together (\<^verbatim>\<open>em\<close> in the source).\<close>

definition f32_em :: "float32 \<Rightarrow> nat" where
  "f32_em ui = unat (ui AND 0x7fffffff)"

section \<open>quantizeHalf\<close>

text \<open>
  \<^verbatim>\<open>
  inline unsigned short quantizeHalf(float v)
  {
      union { float f; unsigned int ui; } u = {v};
      unsigned int ui = u.ui;
      int s = (ui >> 16) & 0x8000;
      int em = ui & 0x7fffffff;
      int h = (em - (112 << 23) + (1 << 12)) >> 13;
      h = (em < (113 << 23)) ? 0 : h;
      h = (em >= (143 << 23)) ? 0x7c00 : h;
      h = (em > (255 << 23)) ? 0x7e00 : h;
      return (unsigned short)(s | h);
  }
  \<close>
  The \<^verbatim>\<open>int\<close> variables are 32-bit words read as two's complement: the comparisons are
  the signed ones, \<^verbatim>\<open>>> 13\<close> on an \<^verbatim>\<open>int\<close> is the arithmetic shift. Lemma
  \<open>sint_biased\<close> below shows that the \<^verbatim>\<open>int\<close> arithmetic never overflows, so the
  wrap-around of the word operations is never taken.
\<close>

definition quantizeHalf :: "float32 \<Rightarrow> 16 word" where
  "quantizeHalf ui =
    (let s = (drop_bit 16 ui) AND 0x8000;
         em = ui AND 0x7fffffff;
         h = signed_drop_bit 13 (em - push_bit 23 112 + push_bit 12 1);
         h = (if em <s push_bit 23 113 then 0 else h);
         h = (if push_bit 23 143 \<le>s em then 0x7c00 else h);
         h = (if push_bit 23 255 <s em then 0x7e00 else h)
     in ucast (s OR h))"

text \<open>The magnitude bits of the result, as a function of \<open>em\<close> read as a number.\<close>

definition half_magnitude :: "nat \<Rightarrow> nat" where
  "half_magnitude e =
     (if 255 * 2 ^ 23 < e then 0x7e00
      else if 143 * 2 ^ 23 \<le> e then 0x7c00
      else if e < 113 * 2 ^ 23 then 0
      else (e - 112 * 2 ^ 23 + 2 ^ 12) div 2 ^ 13)"

subsection \<open>Fields of a bit pattern\<close>

lemma em_mask: "ui AND 0x7fffffff = take_bit 31 (ui :: 32 word)"
proof -
  have "(0x7fffffff :: 32 word) = mask 31" by (simp add: mask_eq_exp_minus_1)
  then show ?thesis by (simp add: take_bit_eq_mask)
qed

lemma mask23: "ui AND 0x7fffff = take_bit 23 (ui :: 32 word)"
proof -
  have "(0x7fffff :: 32 word) = mask 23" by (simp add: mask_eq_exp_minus_1)
  then show ?thesis by (simp add: take_bit_eq_mask)
qed

lemma mask8: "w AND 0xff = take_bit 8 (w :: 32 word)"
proof -
  have "(0xff :: 32 word) = mask 8" by (simp add: mask_eq_exp_minus_1)
  then show ?thesis by (simp add: take_bit_eq_mask)
qed

lemma f32_em_mod: "f32_em ui = unat ui mod 2 ^ 31"
  unfolding f32_em_def em_mask
  by (simp only: unsigned_take_bit_eq take_bit_eq_mod[where 'a=nat])

lemma f32_mantissa_mod: "f32_mantissa ui = unat ui mod 2 ^ 23"
  unfolding f32_mantissa_def mask23
  by (simp only: unsigned_take_bit_eq take_bit_eq_mod[where 'a=nat])

lemma f32_exponent_div: "f32_exponent ui = unat ui div 2 ^ 23 mod 2 ^ 8"
proof -
  have "unat (drop_bit 23 ui) = unat ui div 2 ^ 23"
    by (simp only: unat_drop_bit_eq drop_bit_eq_div[where 'a=nat])
  then show ?thesis
    unfolding f32_exponent_def mask8
    by (simp only: unsigned_take_bit_eq take_bit_eq_mod[where 'a=nat])
qed

lemma f32_em_split: "f32_em ui = f32_exponent ui * 2 ^ 23 + f32_mantissa ui"
proof -
  have "unat ui mod 2 ^ 31 = unat ui mod (2 ^ 23 * 2 ^ 8)" by simp
  also have "\<dots> = 2 ^ 23 * (unat ui div 2 ^ 23 mod 2 ^ 8) + unat ui mod 2 ^ 23"
    by (rule mod_mult2_eq)
  finally show ?thesis
    unfolding f32_em_mod f32_mantissa_mod f32_exponent_div by (simp only: mult.commute)
qed

lemma f32_mantissa_less: "f32_mantissa ui < 2 ^ 23"
  unfolding f32_mantissa_mod by simp

lemma f32_exponent_less: "f32_exponent ui < 2 ^ 8"
  unfolding f32_exponent_div by simp

lemma f32_em_less: "f32_em ui < 2 ^ 31"
  unfolding f32_em_mod by simp

subsection \<open>The integer arithmetic of quantizeHalf does not overflow\<close>

lemma sint_of_int32:
  "- (2 ^ 31) \<le> x \<Longrightarrow> x < 2 ^ 31 \<Longrightarrow> sint (word_of_int x :: 32 word) = x"
  by (simp add: sint_sbintrunc' signed_take_bit_int_eq_self)

lemma sint_em: "sint (ui AND 0x7fffffff :: 32 word) = int (f32_em ui)"
proof -
  have "sint (word_of_int (int (f32_em ui)) :: 32 word) = int (f32_em ui)"
    by (rule sint_of_int32) (use f32_em_less[of ui] in simp_all)
  then show ?thesis by (simp add: f32_em_def)
qed

lemma em_sless:
  "(ui AND 0x7fffffff :: 32 word) <s push_bit 23 113 \<longleftrightarrow> f32_em ui < 113 * 2 ^ 23"
  by (simp add: word_sless_alt sint_em)

lemma em_sle:
  "push_bit 23 143 \<le>s (ui AND 0x7fffffff :: 32 word) \<longleftrightarrow> 143 * 2 ^ 23 \<le> f32_em ui"
  by (simp add: word_sle_eq sint_em)

lemma em_nan:
  "push_bit 23 255 <s (ui AND 0x7fffffff :: 32 word) \<longleftrightarrow> 255 * 2 ^ 23 < f32_em ui"
  by (simp add: word_sless_alt sint_em)

lemma sint_biased:
  "sint ((ui AND 0x7fffffff :: 32 word) - push_bit 23 112 + push_bit 12 1)
     = int (f32_em ui) - 112 * 2 ^ 23 + 2 ^ 12"
proof -
  define x where "x = int (f32_em ui) - 112 * 2 ^ 23 + 2 ^ 12"
  have eq: "(ui AND 0x7fffffff :: 32 word) - push_bit 23 112 + push_bit 12 1 = word_of_int x"
    by (simp add: x_def f32_em_def)
  have "sint (word_of_int x :: 32 word) = x"
    by (rule sint_of_int32) (use f32_em_less[of ui] in \<open>simp_all add: x_def\<close>)
  then show ?thesis unfolding eq by (simp add: x_def)
qed

lemma h_rounded:
  assumes "113 * 2 ^ 23 \<le> f32_em ui"
  shows "signed_drop_bit 13 ((ui AND 0x7fffffff :: 32 word) - push_bit 23 112 + push_bit 12 1)
     = word_of_nat ((f32_em ui - 112 * 2 ^ 23 + 2 ^ 12) div 2 ^ 13)"
proof -
  let ?w = "signed_drop_bit 13 ((ui AND 0x7fffffff :: 32 word) - push_bit 23 112 + push_bit 12 1)"
  have "sint ?w = (int (f32_em ui) - 112 * 2 ^ 23 + 2 ^ 12) div 2 ^ 13"
    by (simp only: sint_signed_drop_bit_eq sint_biased drop_bit_eq_div)
  also have "\<dots> = int ((f32_em ui - 112 * 2 ^ 23 + 2 ^ 12) div 2 ^ 13)"
    using assms by (simp add: zdiv_int of_nat_diff)
  finally have "word_of_int (sint ?w)
      = (word_of_int (int ((f32_em ui - 112 * 2 ^ 23 + 2 ^ 12) div 2 ^ 13)) :: 32 word)"
    by simp
  then show ?thesis by simp
qed

lemma bit_0x8000: "bit (0x8000 :: 32 word) n \<longleftrightarrow> n = 15"
proof -
  have e: "(0x8000 :: 32 word) = 2 ^ 15" by simp
  have "bit (2 ^ 15 :: 32 word) n \<longleftrightarrow> n = 15"
    by (simp only: bit_exp_iff possible_bit_word) auto
  then show ?thesis by (simp only: e)
qed

lemma sign_word:
  "(drop_bit 16 ui) AND 0x8000 = (if bit (ui :: 32 word) 31 then 0x8000 else 0)"
proof (rule bit_word_eqI)
  fix n assume "n < LENGTH(32)"
  have "bit (drop_bit 16 ui AND 0x8000) n \<longleftrightarrow> bit ui (16 + n) \<and> n = 15"
    by (simp only: bit_and_iff bit_drop_bit_eq bit_0x8000 comp_def)
  also have "\<dots> \<longleftrightarrow> bit ui 31 \<and> n = 15" by auto
  also have "\<dots> \<longleftrightarrow> bit (if bit ui 31 then 0x8000 else 0 :: 32 word) n"
    by (simp only: bit_0x8000 if_distrib[of "\<lambda>w. bit w n"] bit_0_eq) auto
  finally show "bit (drop_bit 16 ui AND 0x8000) n
      \<longleftrightarrow> bit (if bit ui 31 then 0x8000 else 0 :: 32 word) n" .
qed

lemma half_magnitude_le: "half_magnitude e \<le> 0x7e00"
  unfolding half_magnitude_def by force

lemma quantizeHalf_word:
  "quantizeHalf ui = ucast ((if bit ui 31 then 0x8000 else 0 :: 32 word)
      OR word_of_nat (half_magnitude (f32_em ui)))"
proof -
  let ?h0 = "signed_drop_bit 13 ((ui AND 0x7fffffff) - push_bit 23 112 + push_bit 12 1)"
  let ?e = "f32_em ui"
  have h: "(if 255 * 2 ^ 23 < ?e then 0x7e00
            else if 143 * 2 ^ 23 \<le> ?e then 0x7c00
            else if ?e < 113 * 2 ^ 23 then 0 else ?h0)
         = (word_of_nat (half_magnitude ?e) :: 32 word)"
  proof (cases "113 * 2 ^ 23 \<le> ?e")
    case True
    show ?thesis unfolding h_rounded[OF True] half_magnitude_def by simp
  next
    case False
    then show ?thesis unfolding half_magnitude_def by simp
  qed
  have "quantizeHalf ui = ucast ((if bit ui 31 then 0x8000 else 0 :: 32 word) OR
         (if 255 * 2 ^ 23 < ?e then 0x7e00
            else if 143 * 2 ^ 23 \<le> ?e then 0x7c00
            else if ?e < 113 * 2 ^ 23 then 0 else ?h0))"
    unfolding quantizeHalf_def Let_def sign_word em_sless em_sle em_nan by (rule refl)
  then show ?thesis unfolding h .
qed

subsection \<open>The result as a number\<close>

lemma or_0x8000_nat: "h < 2 ^ 15 \<Longrightarrow> (2 ^ 15 :: nat) OR h = 2 ^ 15 + h"
proof -
  assume "h < 2 ^ 15"
  then have "\<not> bit h 15" by (simp add: bit_iff_odd)
  then have "h AND 2 ^ 15 = 0" by (rule iffD2[OF and_exp_eq_0_iff_not_bit])
  then have "2 ^ 15 AND h = 0" by (simp only: and.commute)
  then show ?thesis by (rule disjunctive_add_eq_or[symmetric])
qed

lemma unat_quantizeHalf:
  "unat (quantizeHalf ui) = (if f32_sign ui then 2 ^ 15 else 0) + half_magnitude (f32_em ui)"
proof -
  let ?h = "half_magnitude (f32_em ui)"
  have hl: "?h < 2 ^ 15" using half_magnitude_le[of "f32_em ui"] by simp
  have u: "unat (word_of_nat ?h :: 32 word) = ?h"
    using hl by (simp add: unat_of_nat)
  have "unat (quantizeHalf ui)
      = take_bit 16 (unat (if bit ui 31 then 0x8000 else 0 :: 32 word) OR ?h)"
    unfolding quantizeHalf_word by (simp only: unsigned_ucast_eq unsigned_or_eq u) simp
  also have "\<dots> = (if f32_sign ui then 2 ^ 15 else 0) + ?h"
  proof (cases "bit ui 31")
    case True
    have "take_bit 16 (2 ^ 15 + ?h) = 2 ^ 15 + ?h"
      using hl by (simp add: take_bit_nat_eq_self)
    with True show ?thesis using or_0x8000_nat[OF hl] by (simp add: f32_sign_def)
  next
    case False
    have "take_bit 16 ?h = ?h" using hl by (simp add: take_bit_nat_eq_self)
    with False show ?thesis by (simp add: f32_sign_def)
  qed
  finally show ?thesis .
qed

lemma quantizeHalf_eq:
  "quantizeHalf ui = word_of_nat ((if f32_sign ui then 2 ^ 15 else 0) + half_magnitude (f32_em ui))"
proof -
  have "word_of_nat (unat (quantizeHalf ui)) = quantizeHalf ui" by simp
  then show ?thesis by (simp only: unat_quantizeHalf)
qed

subsection \<open>Magnitude and bit pattern are ordered alike\<close>

text \<open>
  The magnitude of a finite pattern, scaled by \<open>2^149\<close>, as a function of the low 31 bits.
  It is strictly increasing, so comparing magnitudes is comparing \<open>em\<close>.
\<close>

definition f32_scaled :: "nat \<Rightarrow> nat" where
  "f32_scaled em =
     (if em div 2 ^ 23 = 0 then em mod 2 ^ 23
      else (2 ^ 23 + em mod 2 ^ 23) * 2 ^ (em div 2 ^ 23 - 1))"

lemma f32_exponent_em: "f32_exponent ui = f32_em ui div 2 ^ 23"
  using f32_mantissa_less[of ui] by (simp add: f32_em_split)

lemma f32_mantissa_em: "f32_mantissa ui = f32_em ui mod 2 ^ 23"
  using f32_mantissa_less[of ui] by (simp add: f32_em_split)

lemma f32_magnitude_scaled: "f32_magnitude ui = real (f32_scaled (f32_em ui)) / 2 ^ 149"
  unfolding f32_magnitude_def f32_scaled_def f32_exponent_em f32_mantissa_em
  by simp

lemma f32_scaled_Suc: "f32_scaled n < f32_scaled (Suc n)"
proof -
  define e m where "e = n div 2 ^ 23" and "m = n mod 2 ^ 23"
  have n: "n = e * 2 ^ 23 + m" and m: "m < 2 ^ 23" by (simp_all add: e_def m_def)
  have sn: "f32_scaled n = (if e = 0 then m else (2 ^ 23 + m) * 2 ^ (e - 1))"
    unfolding f32_scaled_def e_def m_def by (rule refl)
  show ?thesis
  proof (cases "Suc m < 2 ^ 23")
    case True
    then have s: "Suc n div 2 ^ 23 = e" "Suc n mod 2 ^ 23 = Suc m"
      unfolding n by simp_all
    have "f32_scaled (Suc n) = (if e = 0 then Suc m else (2 ^ 23 + Suc m) * 2 ^ (e - 1))"
      unfolding f32_scaled_def s by (rule refl)
    then show ?thesis unfolding sn by simp
  next
    case False
    with m have m': "m = 2 ^ 23 - 1" by simp
    have "Suc n = Suc e * 2 ^ 23" unfolding n m' by simp
    then have s: "Suc n div 2 ^ 23 = Suc e" "Suc n mod 2 ^ 23 = 0" by simp_all
    have ssn: "f32_scaled (Suc n) = 2 ^ 23 * 2 ^ e"
      unfolding f32_scaled_def s by simp
    show ?thesis
    proof (cases e)
      case 0
      then show ?thesis unfolding sn ssn using m by simp
    next
      case (Suc k)
      have "(2 ^ 23 + m) * 2 ^ k < (2 ^ 23 + 2 ^ 23) * (2::nat) ^ k"
        using m by simp
      also have "\<dots> = 2 ^ 23 * 2 ^ Suc k" by simp
      finally show ?thesis unfolding sn ssn Suc by simp
    qed
  qed
qed

lemma f32_scaled_strict_mono: "strict_mono f32_scaled"
  by (rule strict_mono_Suc_iff[THEN iffD2]) (simp add: f32_scaled_Suc)

lemma f32_scaled_less_iff: "f32_scaled x < f32_scaled y \<longleftrightarrow> x < y"
  by (rule strict_mono_less[OF f32_scaled_strict_mono])

lemma f32_scaled_le_iff: "f32_scaled x \<le> f32_scaled y \<longleftrightarrow> x \<le> y"
  by (rule strict_mono_less_eq[OF f32_scaled_strict_mono])

lemma f32_magnitude_less_iff: "f32_magnitude a < f32_magnitude b \<longleftrightarrow> f32_em a < f32_em b"
  by (simp add: f32_magnitude_scaled divide_less_cancel f32_scaled_less_iff)

lemma f32_magnitude_le_iff: "f32_magnitude a \<le> f32_magnitude b \<longleftrightarrow> f32_em a \<le> f32_em b"
  by (simp add: f32_magnitude_scaled divide_le_cancel f32_scaled_le_iff)

lemma f32_magnitude_nonneg: "0 \<le> f32_magnitude a"
  by (simp add: f32_magnitude_scaled)

lemma f32_magnitude_zero_iff: "f32_magnitude a = 0 \<longleftrightarrow> f32_em a = 0"
proof -
  have "f32_scaled 0 = 0" by (simp add: f32_scaled_def)
  then have "f32_scaled (f32_em a) = 0 \<longleftrightarrow> f32_em a = 0"
    using f32_scaled_less_iff[of 0 "f32_em a"] by auto
  then show ?thesis by (simp add: f32_magnitude_scaled)
qed

lemma f32_magnitude_underflow_iff: "f32_magnitude a < 1 / 2 ^ 14 \<longleftrightarrow> f32_em a < 113 * 2 ^ 23"
proof -
  have s: "f32_scaled (113 * 2 ^ 23) = 2 ^ 135" by (simp add: f32_scaled_def)
  have "f32_magnitude a < 1 / 2 ^ 14 \<longleftrightarrow> real (f32_scaled (f32_em a)) < 2 ^ 135"
    by (simp add: f32_magnitude_scaled field_simps)
  also have "\<dots> \<longleftrightarrow> f32_scaled (f32_em a) < f32_scaled (113 * 2 ^ 23)"
    unfolding s by (metis of_nat_less_iff of_nat_numeral of_nat_power)
  finally show ?thesis by (simp only: f32_scaled_less_iff)
qed

lemma f32_magnitude_overflow_iff: "2 ^ 16 \<le> f32_magnitude a \<longleftrightarrow> 143 * 2 ^ 23 \<le> f32_em a"
proof -
  have s: "f32_scaled (143 * 2 ^ 23) = 2 ^ 165" by (simp add: f32_scaled_def)
  have "2 ^ 16 \<le> f32_magnitude a \<longleftrightarrow> (2 ^ 165 :: real) \<le> real (f32_scaled (f32_em a))"
    by (simp add: f32_magnitude_scaled field_simps)
  also have "\<dots> \<longleftrightarrow> f32_scaled (143 * 2 ^ 23) \<le> f32_scaled (f32_em a)"
    unfolding s by (metis of_nat_le_iff of_nat_numeral of_nat_power)
  finally show ?thesis by (simp only: f32_scaled_le_iff)
qed

lemma em_fields_cases:
  fixes e m :: nat
  assumes "m < 2 ^ 23"
  shows "e * 2 ^ 23 + m < 255 * 2 ^ 23 \<longleftrightarrow> e < 255"
    and "e * 2 ^ 23 + m = 255 * 2 ^ 23 \<longleftrightarrow> e = 255 \<and> m = 0"
    and "255 * 2 ^ 23 < e * 2 ^ 23 + m \<longleftrightarrow> 255 < e \<or> (e = 255 \<and> m \<noteq> 0)"
proof -
  consider "e < 255" | "e = 255" | "255 < e" by linarith
  then have "(e * 2 ^ 23 + m < 255 * 2 ^ 23 \<longleftrightarrow> e < 255)
     \<and> (e * 2 ^ 23 + m = 255 * 2 ^ 23 \<longleftrightarrow> e = 255 \<and> m = 0)
     \<and> (255 * 2 ^ 23 < e * 2 ^ 23 + m \<longleftrightarrow> 255 < e \<or> (e = 255 \<and> m \<noteq> 0))"
  proof cases
    case 1
    then have "Suc e \<le> 255" by simp
    then have "Suc e * 2 ^ 23 \<le> 255 * 2 ^ 23" by (rule mult_le_mono1)
    with assms 1 show ?thesis by simp
  next
    case 2
    then show ?thesis by auto
  next
    case 3
    then have "256 \<le> e" by simp
    then have "256 * 2 ^ 23 \<le> e * 2 ^ 23" by (rule mult_le_mono1)
    with 3 show ?thesis by simp
  qed
  then show "e * 2 ^ 23 + m < 255 * 2 ^ 23 \<longleftrightarrow> e < 255"
    and "e * 2 ^ 23 + m = 255 * 2 ^ 23 \<longleftrightarrow> e = 255 \<and> m = 0"
    and "255 * 2 ^ 23 < e * 2 ^ 23 + m \<longleftrightarrow> 255 < e \<or> (e = 255 \<and> m \<noteq> 0)"
    by blast+
qed

lemma f32_is_nan_iff: "f32_is_nan a \<longleftrightarrow> 255 * 2 ^ 23 < f32_em a"
  using f32_exponent_less[of a]
  unfolding f32_is_nan_def f32_em_split em_fields_cases(3)[OF f32_mantissa_less] by auto

lemma f32_is_inf_iff: "f32_is_inf a \<longleftrightarrow> f32_em a = 255 * 2 ^ 23"
  unfolding f32_is_inf_def f32_em_split em_fields_cases(2)[OF f32_mantissa_less] by (rule refl)

lemma f32_is_finite_iff: "f32_is_finite a \<longleftrightarrow> f32_em a < 255 * 2 ^ 23"
  unfolding f32_is_finite_def f32_em_split em_fields_cases(1)[OF f32_mantissa_less] by (rule refl)

lemmas f32_decode_defs =
  f32_value_def f32_magnitude_def f32_sign_def f32_exponent_def f32_mantissa_def
  f32_is_nan_def f32_is_inf_def f32_is_finite_def

section \<open>Claims about quantizeHalf\<close>

text \<open>
  Claim C1. quantizeHalf returns the test vectors of the specification:
  \<^verbatim>\<open>quantizeHalf(0.0f) = 0x0000\<close>, \<^verbatim>\<open>quantizeHalf(1.0f) = 0x3C00\<close>,
  \<^verbatim>\<open>quantizeHalf(-2.0f) = 0xC000\<close>, \<^verbatim>\<open>quantizeHalf(65504.0f) = 0x7BFF\<close>,
  \<^verbatim>\<open>quantizeHalf(1e-10f) = 0x0000\<close>, \<^verbatim>\<open>quantizeHalf(1e20f) = 0x7C00\<close> and
  quantizeHalf of the canonical positive NaN is \<^verbatim>\<open>0x7E00\<close>.
  Each literal is given by its bit pattern; the theorem also states that the pattern
  denotes the literal: exactly for 0, 1, -2 and 65504, and as the float nearest to the
  decimal (strictly nearer than both neighbouring patterns) for 1e-10 and 1e20.
\<close>

theorem quantizeHalf_test_vectors:
  "f32_value 0x00000000 = 0 \<and> quantizeHalf 0x00000000 = 0x0000 \<and>
   f32_value 0x3F800000 = 1 \<and> quantizeHalf 0x3F800000 = 0x3C00 \<and>
   f32_value 0xC0000000 = - 2 \<and> quantizeHalf 0xC0000000 = 0xC000 \<and>
   f32_value 0x477FE000 = 65504 \<and> quantizeHalf 0x477FE000 = 0x7BFF \<and>
   \<bar>f32_value 0x2EDBE6FF - 1 / 10 ^ 10\<bar> < \<bar>f32_value 0x2EDBE6FE - 1 / 10 ^ 10\<bar> \<and>
   \<bar>f32_value 0x2EDBE6FF - 1 / 10 ^ 10\<bar> < \<bar>f32_value 0x2EDBE700 - 1 / 10 ^ 10\<bar> \<and>
   quantizeHalf 0x2EDBE6FF = 0x0000 \<and>
   \<bar>f32_value 0x60AD78EC - 10 ^ 20\<bar> < \<bar>f32_value 0x60AD78EB - 10 ^ 20\<bar> \<and>
   \<bar>f32_value 0x60AD78EC - 10 ^ 20\<bar> < \<bar>f32_value 0x60AD78ED - 10 ^ 20\<bar> \<and>
   quantizeHalf 0x60AD78EC = 0x7C00 \<and>
   f32_is_nan 0x7FC00000 \<and> \<not> f32_sign 0x7FC00000 \<and> quantizeHalf 0x7FC00000 = 0x7E00"
  by (intro conjI; simp add: f32_decode_defs quantizeHalf_def word_sless_alt word_sle_eq)

text \<open>
  Claim C2, as stated: every NaN, of either sign, is converted to \<^verbatim>\<open>0x7E00\<close>. The code
  ors the sign bit \<open>s\<close> into every result, the NaN branch included, so a NaN with the
  sign bit set gives \<^verbatim>\<open>0xFE00\<close>: the claim fails at the pattern \<^verbatim>\<open>0xFFC00000\<close>.
\<close>

theorem quantizeHalf_negative_nan_counterexample:
  "f32_is_nan 0xFFC00000 \<and> quantizeHalf 0xFFC00000 = 0xFE00 \<and> quantizeHalf 0xFFC00000 \<noteq> 0x7E00"
  by (simp add: f32_decode_defs quantizeHalf_def)

lemma half_magnitude_nan: "255 * 2 ^ 23 < e \<Longrightarrow> half_magnitude e = 0x7e00"
  by (simp add: half_magnitude_def)

text \<open>
  Claim C2, amended: for every NaN input (any sign, any payload) quantizeHalf returns
  the quiet NaN \<^verbatim>\<open>0x7E00\<close> with the sign bit of the input kept: \<^verbatim>\<open>0x7E00\<close> for a
  NaN with sign bit 0 and \<^verbatim>\<open>0xFE00\<close> for a NaN with sign bit 1. The payload is dropped.
\<close>

theorem quantizeHalf_nan:
  "f32_is_nan v \<Longrightarrow> quantizeHalf v = (if f32_sign v then 0xFE00 else 0x7E00)"
  by (simp add: quantizeHalf_eq f32_is_nan_iff half_magnitude_nan)

theorem quantizeHalf_nan_witness:
  "f32_is_nan 0xFFFFFFFF \<and> f32_sign 0xFFFFFFFF \<and> quantizeHalf 0xFFFFFFFF = 0xFE00
   \<and> f32_is_nan 0x7F800001 \<and> \<not> f32_sign 0x7F800001 \<and> quantizeHalf 0x7F800001 = 0x7E00"
proof -
  have a: "f32_is_nan 0xFFFFFFFF" and sa: "f32_sign 0xFFFFFFFF"
    and b: "f32_is_nan 0x7F800001" and sb: "\<not> f32_sign 0x7F800001"
    by (simp_all add: f32_decode_defs)
  show ?thesis
    using a sa b sb quantizeHalf_nan[OF a] quantizeHalf_nan[OF b] by simp
qed

lemma half_magnitude_underflow: "e < 113 * 2 ^ 23 \<Longrightarrow> half_magnitude e = 0"
  by (simp add: half_magnitude_def)

lemma half_magnitude_overflow:
  "143 * 2 ^ 23 \<le> e \<Longrightarrow> e \<le> 255 * 2 ^ 23 \<Longrightarrow> half_magnitude e = 0x7c00"
  by (simp add: half_magnitude_def)

lemma bit15_quantizeHalf: "bit (quantizeHalf ui) 15 \<longleftrightarrow> f32_sign ui"
proof -
  let ?h = "half_magnitude (f32_em ui)"
  have hl: "?h < 2 ^ 15" using half_magnitude_le[of "f32_em ui"] by simp
  have "bit (quantizeHalf ui) 15 \<longleftrightarrow> bit (unat (quantizeHalf ui)) 15"
    by (simp add: bit_unsigned_iff)
  also have "\<dots> \<longleftrightarrow> odd (((if f32_sign ui then 2 ^ 15 else 0) + ?h) div 2 ^ 15)"
    unfolding unat_quantizeHalf by (simp only: bit_iff_odd)
  also have "\<dots> \<longleftrightarrow> f32_sign ui"
    using hl by (cases "f32_sign ui") simp_all
  finally show ?thesis .
qed

text \<open>
  Claim C5. quantizeHalf keeps the sign bit of its input (bit 15 of the result is bit 31
  of the input); every finite input of magnitude below \<open>2^-14\<close>, denormals included, gives
  the sign bit alone (all magnitude bits zero); every infinite input and every finite
  input of magnitude at least \<open>2^16\<close> gives the sign bit or \<^verbatim>\<open>0x7C00\<close> (signed infinity).
\<close>

theorem quantizeHalf_sign_and_thresholds:
  "(bit (quantizeHalf v) 15 \<longleftrightarrow> f32_sign v) \<and>
   (f32_is_finite v \<and> f32_magnitude v < 1 / 2 ^ 14 \<longrightarrow>
      quantizeHalf v = (if f32_sign v then 0x8000 else 0x0000)) \<and>
   (f32_is_inf v \<or> (f32_is_finite v \<and> 2 ^ 16 \<le> f32_magnitude v) \<longrightarrow>
      quantizeHalf v = (if f32_sign v then 0xFC00 else 0x7C00))"
proof (intro conjI impI)
  show "bit (quantizeHalf v) 15 \<longleftrightarrow> f32_sign v" by (rule bit15_quantizeHalf)
next
  assume "f32_is_finite v \<and> f32_magnitude v < 1 / 2 ^ 14"
  then have "f32_em v < 113 * 2 ^ 23" by (simp only: f32_magnitude_underflow_iff)
  then show "quantizeHalf v = (if f32_sign v then 0x8000 else 0x0000)"
    by (simp add: quantizeHalf_eq half_magnitude_underflow)
next
  assume "f32_is_inf v \<or> (f32_is_finite v \<and> 2 ^ 16 \<le> f32_magnitude v)"
  then have "143 * 2 ^ 23 \<le> f32_em v \<and> f32_em v \<le> 255 * 2 ^ 23"
    unfolding f32_is_inf_iff f32_is_finite_iff f32_magnitude_overflow_iff by auto
  then show "quantizeHalf v = (if f32_sign v then 0xFC00 else 0x7C00)"
    by (simp add: quantizeHalf_eq half_magnitude_overflow)
qed

theorem quantizeHalf_sign_and_thresholds_witness:
  "f32_is_finite 0x807FFFFF \<and> f32_magnitude 0x807FFFFF < 1 / 2 ^ 14 \<and> f32_sign 0x807FFFFF
     \<and> quantizeHalf 0x807FFFFF = 0x8000
   \<and> f32_is_finite 0x387FFFFF \<and> f32_magnitude 0x387FFFFF < 1 / 2 ^ 14 \<and> \<not> f32_sign 0x387FFFFF
     \<and> quantizeHalf 0x387FFFFF = 0x0000
   \<and> f32_is_finite 0xC7800000 \<and> 2 ^ 16 \<le> f32_magnitude 0xC7800000 \<and> f32_sign 0xC7800000
     \<and> quantizeHalf 0xC7800000 = 0xFC00
   \<and> f32_is_inf 0x7F800000 \<and> \<not> f32_sign 0x7F800000 \<and> quantizeHalf 0x7F800000 = 0x7C00"
proof -
  have a: "f32_is_finite 0x807FFFFF \<and> f32_magnitude 0x807FFFFF < 1 / 2 ^ 14"
    and sa: "f32_sign 0x807FFFFF"
    and b: "f32_is_finite 0x387FFFFF \<and> f32_magnitude 0x387FFFFF < 1 / 2 ^ 14"
    and sb: "\<not> f32_sign 0x387FFFFF"
    and c: "f32_is_finite 0xC7800000 \<and> 2 ^ 16 \<le> f32_magnitude 0xC7800000"
    and sc: "f32_sign 0xC7800000"
    and d: "f32_is_inf 0x7F800000" and sd: "\<not> f32_sign 0x7F800000"
    by (simp_all add: f32_decode_defs)
  show ?thesis
    using a sa b sb c sc d sd
      quantizeHalf_sign_and_thresholds[of "0x807FFFFF"]
      quantizeHalf_sign_and_thresholds[of "0x387FFFFF"]
      quantizeHalf_sign_and_thresholds[of "0xC7800000"]
      quantizeHalf_sign_and_thresholds[of "0x7F800000"]
    by simp
qed

lemma half_magnitude_mono:
  assumes "x \<le> y" "y \<le> 255 * 2 ^ 23"
  shows "half_magnitude x \<le> half_magnitude y"
proof -
  have d: "(x - 112 * 2 ^ 23 + 2 ^ 12) div 2 ^ 13 \<le> (y - 112 * 2 ^ 23 + 2 ^ 12) div 2 ^ 13"
    using assms(1) by (intro div_le_mono add_le_mono diff_le_mono) simp_all
  have u: "(x - 112 * 2 ^ 23 + 2 ^ 12) div 2 ^ 13 \<le> 0x7c00" if "x < 143 * 2 ^ 23"
  proof -
    have "x - 112 * 2 ^ 23 + 2 ^ 12 \<le> 0x7c00 * 2 ^ 13 + 2 ^ 12" using that by simp
    then have "(x - 112 * 2 ^ 23 + 2 ^ 12) div 2 ^ 13 \<le> (0x7c00 * 2 ^ 13 + 2 ^ 12) div 2 ^ 13"
      by (rule div_le_mono)
    then show ?thesis by simp
  qed
  show ?thesis
    using assms d u unfolding half_magnitude_def by (auto simp del: div_mult_self1 div_mult_self2 div_mult_self3 div_mult_self4)
qed

text \<open>
  Claim C9, as stated: for all non-NaN floats \<open>a\<close>, \<open>b\<close> with \<^verbatim>\<open>0 <= a <= b\<close>,
  \<^verbatim>\<open>quantizeHalf(a) <= quantizeHalf(b)\<close> as unsigned 16-bit values. Negative zero
  satisfies \<^verbatim>\<open>0 <= -0.0f\<close>, and quantizeHalf keeps its sign bit: at \<open>a = -0.0\<close>
  (pattern \<^verbatim>\<open>0x80000000\<close>) and \<open>b = 1.0\<close> the results are \<^verbatim>\<open>0x8000\<close> and \<^verbatim>\<open>0x3C00\<close>.
\<close>

theorem quantizeHalf_negative_zero_counterexample:
  "\<not> f32_is_nan 0x80000000 \<and> \<not> f32_is_nan 0x3F800000 \<and>
   f32_le 0 0x80000000 \<and> f32_le 0x80000000 0x3F800000 \<and>
   quantizeHalf 0x80000000 = 0x8000 \<and> quantizeHalf 0x3F800000 = 0x3C00 \<and>
   \<not> quantizeHalf 0x80000000 \<le> quantizeHalf 0x3F800000"
  by (intro conjI; simp add: f32_le_def f32_decode_defs quantizeHalf_def word_sless_alt word_sle_eq)

lemma unat_sign_em: "unat ui = (if f32_sign ui then 2 ^ 31 else 0) + f32_em ui"
proof -
  define q r where "q = unat ui div 2 ^ 31" and "r = unat ui mod 2 ^ 31"
  have d: "unat ui = q * 2 ^ 31 + r" unfolding q_def r_def by simp
  have l: "q < 2"
    unfolding q_def using unsigned_less[of ui, where 'a=nat] by (simp add: less_mult_imp_div_less)
  have "f32_sign ui \<longleftrightarrow> bit (unat ui) 31"
    unfolding f32_sign_def by (simp add: bit_unsigned_iff)
  also have "\<dots> \<longleftrightarrow> odd q" unfolding q_def by (simp only: bit_iff_odd)
  also have "\<dots> \<longleftrightarrow> q = 1" using l by (cases q) auto
  finally have s: "f32_sign ui \<longleftrightarrow> q = 1" .
  have e: "f32_em ui = r" unfolding f32_em_mod r_def by (rule refl)
  show ?thesis unfolding e using d s l by (cases "f32_sign ui") auto
qed

text \<open>
  Claim C9, amended: for all floats \<open>a\<close>, \<open>b\<close> with \<^verbatim>\<open>0 <= a <= b\<close> (which excludes
  NaNs) where \<open>a\<close> is not negative zero, \<^verbatim>\<open>quantizeHalf(a) <= quantizeHalf(b)\<close> as
  unsigned 16-bit values. Infinite \<open>a\<close> and \<open>b\<close> are included.
\<close>

theorem quantizeHalf_monotone:
  assumes "f32_le 0 a" and "f32_le a b" and "a \<noteq> 0x80000000"
  shows "quantizeHalf a \<le> quantizeHalf b"
proof -
  have z: "f32_em 0 = 0" "\<not> f32_sign 0" "f32_value 0 = 0" "\<not> f32_is_inf 0" "\<not> f32_is_nan 0"
    by (simp_all add: f32_em_def f32_decode_defs)
  have nan: "\<not> f32_is_nan a" "\<not> f32_is_nan b"
    using assms(2) unfolding f32_le_def by (auto split: if_splits)
  then have le: "f32_em a \<le> 255 * 2 ^ 23" "f32_em b \<le> 255 * 2 ^ 23"
    unfolding f32_is_nan_iff by simp_all
  have sa: "\<not> f32_sign a"
  proof
    assume s: "f32_sign a"
    from assms(1) s have "\<not> f32_is_inf a" and "0 \<le> f32_value a"
      unfolding f32_le_def using z nan by (auto split: if_splits)
    with s have "f32_magnitude a = 0"
      using f32_magnitude_nonneg[of a] by (simp add: f32_value_def)
    then have "f32_em a = 0" by (simp only: f32_magnitude_zero_iff)
    with s have "unat a = 2 ^ 31" by (simp add: unat_sign_em)
    then have "a = word_of_nat (2 ^ 31)" by (metis of_nat_unat ucast_id)
    with assms(3) show False by simp
  qed
  then have qa: "unat (quantizeHalf a) = half_magnitude (f32_em a)"
    by (simp add: unat_quantizeHalf)
  have "half_magnitude (f32_em a) \<le> unat (quantizeHalf b)"
  proof (cases "f32_sign b")
    case True
    with assms(2) sa nan have "f32_value a \<le> f32_value b"
      unfolding f32_le_def by (auto split: if_splits)
    with True sa have "f32_magnitude a \<le> - f32_magnitude b" by (simp add: f32_value_def)
    then have "f32_magnitude a = 0"
      using f32_magnitude_nonneg[of a] f32_magnitude_nonneg[of b] by simp
    then have "f32_em a = 0" by (simp only: f32_magnitude_zero_iff)
    then show ?thesis by (simp add: half_magnitude_def)
  next
    case False
    have "f32_em a \<le> f32_em b"
    proof (cases "f32_is_inf b")
      case True
      then show ?thesis using le unfolding f32_is_inf_iff by simp
    next
      case nb: False
      with assms(2) nan have "\<not> f32_is_inf a" "f32_value a \<le> f32_value b"
        unfolding f32_le_def using sa by (auto split: if_splits)
      with False sa have "f32_magnitude a \<le> f32_magnitude b" by (simp add: f32_value_def)
      then show ?thesis by (simp only: f32_magnitude_le_iff)
    qed
    then have "half_magnitude (f32_em a) \<le> half_magnitude (f32_em b)"
      using le(2) by (rule half_magnitude_mono)
    with False show ?thesis by (simp add: unat_quantizeHalf)
  qed
  then show ?thesis by (simp add: word_le_nat_alt qa)
qed

theorem quantizeHalf_monotone_witness:
  "f32_le 0 0x3F800000 \<and> f32_le 0x3F800000 0x477FE000 \<and> (0x3F800000 :: float32) \<noteq> 0x80000000
   \<and> quantizeHalf 0x3F800000 \<le> quantizeHalf 0x477FE000"
proof -
  have a: "f32_le 0 0x3F800000" and b: "f32_le 0x3F800000 0x477FE000"
    and c: "(0x3F800000 :: float32) \<noteq> 0x80000000"
    by (simp_all add: f32_le_def f32_decode_defs)
  show ?thesis using a b c quantizeHalf_monotone[OF a b c] by simp
qed

section \<open>Float arithmetic of the fixed-point quantizers\<close>

text \<open>
  \<^verbatim>\<open>quantizeUnorm\<close> and \<^verbatim>\<open>quantizeSnorm\<close> compute with \<^verbatim>\<open>float\<close>: comparisons, one
  multiplication, one addition, a conversion from \<^verbatim>\<open>int\<close> and one to \<^verbatim>\<open>int\<close>. The
  operations are modelled as IEEE-754 binary32 operations in the default rounding mode
  (round to nearest, ties to even), each result rounded to binary32, as compilers for
  x86-64 (SSE) and ARM evaluate \<^verbatim>\<open>float\<close> expressions.

  A float is the value it denotes: a NaN, an infinity with its sign (\<open>True\<close> is
  negative), or a finite real. The two zeros denote the same real; no operation below
  tells them apart.
\<close>

datatype fp = NaN | Inf bool | Fin real

definition f32_decode :: "float32 \<Rightarrow> fp" where
  "f32_decode ui =
     (if f32_is_nan ui then NaN
      else if f32_is_inf ui then Inf (f32_sign ui)
      else Fin (f32_value ui))"

text \<open>Rounding a real to an integer, ties to the even neighbour.\<close>

definition rne :: "real \<Rightarrow> int" where
  "rne y =
     (let f = \<lfloor>y\<rfloor>; d = y - of_int f
      in if d < 1 / 2 then f else if 1 / 2 < d then f + 1 else if even f then f else f + 1)"

text \<open>
  Rounding a real \<open>x\<close> to binary32. With \<open>X = x * 2^149\<close> (the value in units of the
  smallest denormal), \<open>binade 253 \<bar>X\<bar>\<close> is the exponent \<open>E\<close> of the spacing \<open>2^E\<close>
  of the floats around \<open>X\<close>: the greatest \<open>E \<le> 253\<close> with \<open>2^(E + 23) \<le> \<bar>X\<bar>\<close>, and
  \<open>0\<close> for denormals and the lowest normal binade. \<open>X\<close> is rounded to a multiple of
  \<open>2^E\<close>; a result of magnitude \<open>2^128\<close> or more is an infinity.
\<close>

primrec binade :: "nat \<Rightarrow> real \<Rightarrow> nat" where
  "binade 0 a = 0"
| "binade (Suc k) a = (if 2 ^ (Suc k + 23) \<le> a then Suc k else binade k a)"

definition fp_round :: "real \<Rightarrow> fp" where
  "fp_round x =
     (let X = x * 2 ^ 149;
          E = binade 253 \<bar>X\<bar>;
          n = rne (X / 2 ^ E)
      in if 2 ^ 24 \<le> \<bar>n\<bar> \<and> E = 253 then Inf (x < 0)
         else Fin (of_int n * 2 ^ E / 2 ^ 149))"

lemma binade_le: "binade k a \<le> k"
  by (induction k) auto

lemma binade_lower: "0 < binade k a \<Longrightarrow> 2 ^ (binade k a + 23) \<le> a"
  by (induction k) (auto split: if_splits)

lemma binade_upper: "binade k a < k \<Longrightarrow> a < 2 ^ (binade k a + 24)"
proof (induction k)
  case 0
  then show ?case by simp
next
  case (Suc k)
  show ?case
  proof (cases "2 ^ (Suc k + 23) \<le> a")
    case True
    with Suc.prems show ?thesis by simp
  next
    case False
    then have b: "binade (Suc k) a = binade k a" by simp
    show ?thesis
    proof (cases "binade k a < k")
      case True
      then show ?thesis unfolding b by (rule Suc.IH)
    next
      case False
      with binade_le[of k a] have "binade k a = k" by simp
      with \<open>\<not> 2 ^ (Suc k + 23) \<le> a\<close> show ?thesis
        unfolding b by (simp add: add.commute not_le)
    qed
  qed
qed

lemma binade_eqI:
  assumes "E \<le> k" and "0 < E \<Longrightarrow> 2 ^ (E + 23) \<le> a" and "E < k \<Longrightarrow> a < 2 ^ (E + 24)"
  shows "binade k a = E"
proof (rule antisym)
  show "binade k a \<le> E"
  proof (rule ccontr)
    assume "\<not> binade k a \<le> E"
    then have l: "E < binade k a" by simp
    then have "2 ^ (binade k a + 23) \<le> a" by (intro binade_lower) simp
    moreover have "(2::real) ^ (E + 24) \<le> 2 ^ (binade k a + 23)"
      using l by (intro power_increasing) simp_all
    moreover have "a < 2 ^ (E + 24)" using l binade_le[of k a] by (intro assms(3)) simp
    ultimately show False by simp
  qed
  show "E \<le> binade k a"
  proof (rule ccontr)
    assume "\<not> E \<le> binade k a"
    then have l: "binade k a < E" by simp
    then have "a < 2 ^ (binade k a + 24)" using assms(1) by (intro binade_upper) simp
    moreover have "(2::real) ^ (binade k a + 24) \<le> 2 ^ (E + 23)"
      using l by (intro power_increasing) simp_all
    moreover have "2 ^ (E + 23) \<le> a" using l by (intro assms(2)) simp
    ultimately show False by simp
  qed
qed

lemma binade_mono: "a \<le> b \<Longrightarrow> binade k a \<le> binade k b"
  by (induction k) (auto simp: le_SucI binade_le)

lemma rne_of_int: "rne (of_int n) = n"
  by (simp add: rne_def)

lemma rne_bounds: "y - 1 / 2 \<le> of_int (rne y)" "of_int (rne y) \<le> y + 1 / 2"
  unfolding rne_def Let_def by (auto; linarith)+

lemma rne_mono: 
  assumes "x \<le> y" shows "rne x \<le> rne y"
proof (cases "\<lfloor>x\<rfloor> = \<lfloor>y\<rfloor>")
  case True
  then show ?thesis using assms unfolding rne_def Let_def by auto
next
  case False
  with assms have "\<lfloor>x\<rfloor> < \<lfloor>y\<rfloor>" by (simp add: floor_mono order.strict_iff_order)
  then have "\<lfloor>x\<rfloor> + 1 \<le> \<lfloor>y\<rfloor>" by simp
  moreover have "rne x \<le> \<lfloor>x\<rfloor> + 1" unfolding rne_def Let_def by auto
  moreover have "\<lfloor>y\<rfloor> \<le> rne y" unfolding rne_def Let_def by auto
  ultimately show ?thesis by linarith
qed

lemma rne_minus: "rne (- x) = - rne x"
proof (cases "x \<in> \<int>")
  case True
  then obtain n where "x = of_int n" by (auto elim: Ints_cases)
  then show ?thesis using rne_of_int[of "- n"] rne_of_int[of n] by simp
next
  case False
  then have ne: "x \<noteq> of_int \<lfloor>x\<rfloor>" by (metis Ints_of_int)
  then have f: "\<lfloor>- x\<rfloor> = - \<lfloor>x\<rfloor> - 1"
    by (simp add: floor_minus ceiling_altdef)
  show ?thesis using ne unfolding rne_def Let_def f
    by (auto simp: algebra_simps)
qed

text \<open>The rounding of \<open>fp_round\<close> on the scaled value, without the overflow test.\<close>

definition rnd :: "real \<Rightarrow> real" where
  "rnd X = of_int (rne (X / 2 ^ binade 253 \<bar>X\<bar>)) * 2 ^ binade 253 \<bar>X\<bar>"

lemma rnd_minus: "rnd (- X) = - rnd X"
  by (simp add: rnd_def rne_minus)

lemma rnd_nonneg: "0 \<le> X \<Longrightarrow> 0 \<le> rnd X"
proof -
  assume "0 \<le> X"
  then have "rne 0 \<le> rne (X / 2 ^ binade 253 \<bar>X\<bar>)" by (intro rne_mono) simp
  then show ?thesis using rne_of_int[of 0] by (simp add: rnd_def)
qed

lemma rnd_exact:
  assumes "\<bar>n\<bar> < 2 ^ 24"
  shows "rnd (of_int n * 2 ^ j) = of_int n * 2 ^ j"
proof -
  define X :: real where "X = of_int n * 2 ^ j"
  define E where "E = binade 253 \<bar>X\<bar>"
  have "E \<le> j"
  proof (cases "0 < E")
    case True
    then have "2 ^ (E + 23) \<le> \<bar>X\<bar>" unfolding E_def by (rule binade_lower)
    also have "\<bar>X\<bar> = real_of_int \<bar>n\<bar> * 2 ^ j" by (simp add: X_def abs_mult)
    also have "\<dots> < 2 ^ 24 * 2 ^ j"
      using assms by (intro mult_strict_right_mono) (simp_all flip: of_int_less_iff)
    finally have "(2::real) ^ (E + 23) < 2 ^ (24 + j)" by (simp add: power_add)
    then have "E + 23 < 24 + j" by (simp only: power_strict_increasing_iff one_less_numeral_iff semiring_norm)
    then show ?thesis by simp
  qed simp
  then obtain d where d: "j = E + d" by (auto simp: le_iff_add)
  have "X / 2 ^ E = of_int (n * 2 ^ d)" by (simp add: X_def d power_add)
  then have "rne (X / 2 ^ E) = n * 2 ^ d" by (simp only: rne_of_int)
  then have "rnd X = of_int (n * 2 ^ d) * 2 ^ E" by (simp add: rnd_def E_def)
  also have "\<dots> = X" by (simp add: X_def d power_add)
  finally show ?thesis by (simp add: X_def)
qed

lemma rnd_mono_nonneg:
  assumes "0 \<le> X" "X \<le> Y"
  shows "rnd X \<le> rnd Y"
proof -
  define ea eb where "ea = binade 253 \<bar>X\<bar>" and "eb = binade 253 \<bar>Y\<bar>"
  have le: "ea \<le> eb" unfolding ea_def eb_def using assms by (intro binade_mono) simp
  show ?thesis
  proof (cases "ea = eb")
    case True
    have "X / 2 ^ eb \<le> Y / 2 ^ eb" using assms by (simp add: divide_right_mono)
    then have "rne (X / 2 ^ eb) \<le> rne (Y / 2 ^ eb)" by (rule rne_mono)
    then have "real_of_int (rne (X / 2 ^ eb)) * 2 ^ eb \<le> real_of_int (rne (Y / 2 ^ eb)) * 2 ^ eb"
      by (intro mult_right_mono) simp_all
    then show ?thesis unfolding rnd_def ea_def[symmetric] eb_def[symmetric] True .
  next
    case False
    with le have l: "ea < eb" by simp
    have "eb \<le> 253" unfolding eb_def by (rule binade_le)
    with l have "\<bar>X\<bar> < 2 ^ (ea + 24)" unfolding ea_def by (intro binade_upper) simp
    then have "X / 2 ^ ea \<le> of_int (2 ^ 24)" using assms(1) by (simp add: field_simps power_add)
    then have "rne (X / 2 ^ ea) \<le> rne (of_int (2 ^ 24))" by (rule rne_mono)
    then have "rne (X / 2 ^ ea) \<le> 2 ^ 24" by (simp only: rne_of_int)
    then have "real_of_int (rne (X / 2 ^ ea)) \<le> 2 ^ 24"
      by (metis of_int_le_iff of_int_numeral of_int_power)
    then have "real_of_int (rne (X / 2 ^ ea)) * 2 ^ ea \<le> 2 ^ 24 * 2 ^ ea"
      by (intro mult_right_mono) simp_all
    then have a: "rnd X \<le> 2 ^ (ea + 24)"
      unfolding rnd_def ea_def[symmetric] by (simp add: power_add mult.commute)
    have "0 < eb" using l by simp
    then have "2 ^ (eb + 23) \<le> \<bar>Y\<bar>" unfolding eb_def by (rule binade_lower)
    moreover have "0 \<le> Y" using assms by simp
    ultimately have "of_int (2 ^ 23) \<le> Y / 2 ^ eb" by (simp add: field_simps power_add)
    then have "rne (of_int (2 ^ 23)) \<le> rne (Y / 2 ^ eb)" by (rule rne_mono)
    then have "2 ^ 23 \<le> rne (Y / 2 ^ eb)" by (simp only: rne_of_int)
    then have "2 ^ 23 \<le> real_of_int (rne (Y / 2 ^ eb))"
      by (metis of_int_le_iff of_int_numeral of_int_power)
    then have "2 ^ 23 * 2 ^ eb \<le> real_of_int (rne (Y / 2 ^ eb)) * 2 ^ eb"
      by (intro mult_right_mono) simp_all
    then have b: "2 ^ (eb + 23) \<le> rnd Y"
      unfolding rnd_def eb_def[symmetric] by (simp add: power_add mult.commute)
    have "(2::real) ^ (ea + 24) \<le> 2 ^ (eb + 23)" using l by (intro power_increasing) simp_all
    with a b show ?thesis by linarith
  qed
qed

lemma rnd_mono: 
  assumes "X \<le> Y" shows "rnd X \<le> rnd Y"
proof (cases "0 \<le> X")
  case True
  then show ?thesis using assms by (rule rnd_mono_nonneg)
next
  case False
  show ?thesis
  proof (cases "0 \<le> Y")
    case True
    have "0 \<le> rnd (- X)" using False by (intro rnd_nonneg) simp
    then have "rnd X \<le> 0" by (simp add: rnd_minus)
    also have "0 \<le> rnd Y" using True by (rule rnd_nonneg)
    finally show ?thesis .
  next
    case False
    then have "rnd (- Y) \<le> rnd (- X)" using assms by (intro rnd_mono_nonneg) simp_all
    then show ?thesis by (simp add: rnd_minus)
  qed
qed

text \<open>Multiplication, addition and comparison of floats.\<close>

fun fp_mul :: "fp \<Rightarrow> fp \<Rightarrow> fp" where
  "fp_mul NaN b = NaN"
| "fp_mul a NaN = NaN"
| "fp_mul (Inf s) (Inf t) = Inf (s \<noteq> t)"
| "fp_mul (Inf s) (Fin y) = (if y = 0 then NaN else Inf (s \<noteq> (y < 0)))"
| "fp_mul (Fin x) (Inf t) = (if x = 0 then NaN else Inf ((x < 0) \<noteq> t))"
| "fp_mul (Fin x) (Fin y) = fp_round (x * y)"

fun fp_add :: "fp \<Rightarrow> fp \<Rightarrow> fp" where
  "fp_add NaN b = NaN"
| "fp_add a NaN = NaN"
| "fp_add (Inf s) (Inf t) = (if s = t then Inf s else NaN)"
| "fp_add (Inf s) (Fin y) = Inf s"
| "fp_add (Fin x) (Inf t) = Inf t"
| "fp_add (Fin x) (Fin y) = fp_round (x + y)"

fun fp_le :: "fp \<Rightarrow> fp \<Rightarrow> bool" where
  "fp_le NaN b = False"
| "fp_le a NaN = False"
| "fp_le (Inf s) (Inf t) = (if s then True else \<not> t)"
| "fp_le (Inf s) (Fin y) = s"
| "fp_le (Fin x) (Inf t) = (\<not> t)"
| "fp_le (Fin x) (Fin y) = (x \<le> y)"

definition fp_ge :: "fp \<Rightarrow> fp \<Rightarrow> bool" where
  "fp_ge a b = fp_le b a"

text \<open>On bit patterns this is the comparison \<open>f32_le\<close> of the data model.\<close>

lemma f32_le_decode: "f32_le a b \<longleftrightarrow> fp_le (f32_decode a) (f32_decode b)"
  unfolding f32_le_def f32_decode_def f32_is_nan_def f32_is_inf_def by auto

text \<open>
  \<^verbatim>\<open>float(i)\<close> rounds the integer; \<^verbatim>\<open>int(f)\<close> truncates towards zero and is undefined
  (\<open>None\<close>) for a NaN, an infinity or a value outside the range of \<^verbatim>\<open>int\<close>.
\<close>

definition fp_of_int :: "int \<Rightarrow> fp" where
  "fp_of_int i = fp_round (of_int i)"

fun fp_to_int :: "fp \<Rightarrow> int option" where
  "fp_to_int (Fin x) =
     (let t = (if 0 \<le> x then \<lfloor>x\<rfloor> else \<lceil>x\<rceil>)
      in if - (2 ^ 31) \<le> t \<and> t < 2 ^ 31 then Some t else None)"
| "fp_to_int a = None"

text \<open>
  \<^verbatim>\<open>(1 << n) - 1\<close> on \<^verbatim>\<open>int\<close>: defined for \<open>0 \<le> n \<le> 30\<close>. A negative or too large
  shift count is undefined, and for \<open>n = 31\<close> the subtraction overflows.
\<close>

definition shl1_minus1 :: "int \<Rightarrow> int option" where
  "shl1_minus1 n = (if 0 \<le> n \<and> n \<le> 30 then Some (2 ^ nat n - 1) else None)"

text \<open>
  \<^verbatim>\<open>
  inline int quantizeUnorm(float v, int bits)
  {
      const float scale = float((1 << bits) - 1);
      v = (v >= 0) ? v : 0;
      v = (v <= 1) ? v : 1;
      return int(v * scale + 0.5f);
  }
  \<close>
  The result is \<open>None\<close> where the C++ is undefined.
\<close>

definition quantizeUnorm :: "float32 \<Rightarrow> int \<Rightarrow> int option" where
  "quantizeUnorm vb bits =
     (case shl1_minus1 bits of
        None \<Rightarrow> None
      | Some m \<Rightarrow>
          (let scale = fp_of_int m;
               v = f32_decode vb;
               v = (if fp_ge v (Fin 0) then v else Fin 0);
               v = (if fp_le v (Fin 1) then v else Fin 1)
           in fp_to_int (fp_add (fp_mul v scale) (Fin (1 / 2)))))"

text \<open>
  \<^verbatim>\<open>
  inline int quantizeSnorm(float v, int bits)
  {
      const float scale = float((1 << (bits - 1)) - 1);
      float round = (v >= 0 ? 0.5f : -0.5f);
      v = (v >= -1) ? v : -1;
      v = (v <= +1) ? v : +1;
      return int(v * scale + round);
  }
  \<close>
\<close>

definition quantizeSnorm :: "float32 \<Rightarrow> int \<Rightarrow> int option" where
  "quantizeSnorm vb bits =
     (case shl1_minus1 (bits - 1) of
        None \<Rightarrow> None
      | Some m \<Rightarrow>
          (let scale = fp_of_int m;
               v = f32_decode vb;
               round = (if fp_ge v (Fin 0) then Fin (1 / 2) else Fin (- (1 / 2)));
               v = (if fp_ge v (Fin (- 1)) then v else Fin (- 1));
               v = (if fp_le v (Fin 1) then v else Fin 1)
           in fp_to_int (fp_add (fp_mul v scale) round)))"

subsection \<open>Rounding is monotone and exact on representable values\<close>

text \<open>The rounded value of a real that does not overflow.\<close>

definition f32_rnd :: "real \<Rightarrow> real" where
  "f32_rnd x = rnd (x * 2 ^ 149) / 2 ^ 149"

lemma fp_round_rnd:
  assumes "\<bar>x\<bar> \<le> 2 ^ 31"
  shows "fp_round x = Fin (f32_rnd x)"
proof -
  define E where "E = binade 253 \<bar>x * 2 ^ 149\<bar>"
  have "E \<noteq> 253"
  proof
    assume "E = 253"
    then have "2 ^ (253 + 23) \<le> \<bar>x * 2 ^ 149\<bar>"
      using binade_lower[of 253 "\<bar>x * 2 ^ 149\<bar>"] by (simp add: E_def)
    also have "\<bar>x * 2 ^ 149\<bar> \<le> 2 ^ 31 * 2 ^ 149"
      using assms by (simp add: abs_mult)
    finally show False by simp
  qed
  then show ?thesis
    unfolding fp_round_def f32_rnd_def rnd_def Let_def E_def[symmetric] by simp
qed

lemma f32_rnd_mono: "x \<le> y \<Longrightarrow> f32_rnd x \<le> f32_rnd y"
  unfolding f32_rnd_def by (intro divide_right_mono rnd_mono) simp_all

lemma f32_rnd_minus: "f32_rnd (- x) = - f32_rnd x"
  unfolding f32_rnd_def by (simp add: rnd_minus)

lemma f32_rnd_int: "\<bar>n\<bar> < 2 ^ 24 \<Longrightarrow> f32_rnd (of_int n) = of_int n"
  unfolding f32_rnd_def using rnd_exact[of n 149] by simp

lemma f32_rnd_half: "\<bar>n\<bar> < 2 ^ 24 \<Longrightarrow> f32_rnd (of_int n / 2) = of_int n / 2"
proof -
  assume a: "\<bar>n\<bar> < 2 ^ 24"
  have e: "of_int n / 2 * 2 ^ 149 = (of_int n * 2 ^ 148 :: real)" by simp
  show ?thesis unfolding f32_rnd_def e rnd_exact[OF a, of 148] by simp
qed

lemma fp_round_at:
  assumes "E < 253" and "0 < E \<Longrightarrow> 2 ^ (E + 23) \<le> \<bar>x\<bar> * 2 ^ 149"
    and "\<bar>x\<bar> * 2 ^ 149 < 2 ^ (E + 24)"
  shows "fp_round x = Fin (of_int (rne (x * 2 ^ 149 / 2 ^ E)) * 2 ^ E / 2 ^ 149)"
proof -
  have "binade 253 \<bar>x * 2 ^ 149\<bar> = E"
    using assms by (intro binade_eqI) (simp_all add: abs_mult)
  then show ?thesis using assms(1) unfolding fp_round_def Let_def by simp
qed

subsection \<open>The specification's formulas\<close>





subsection \<open>Two roundings: the product, then the sum with one half\<close>

definition quant_core :: "real \<Rightarrow> real" where
  "quant_core x = f32_rnd (f32_rnd x + 1 / 2)"

lemma f32_rnd_ge_half:
  "\<bar>n\<bar> < 2 ^ 24 \<Longrightarrow> of_int n / 2 \<le> x \<Longrightarrow> of_int n / 2 \<le> f32_rnd x"
  using f32_rnd_mono[of "of_int n / 2" x] f32_rnd_half[of n] by simp

lemma f32_rnd_le_half:
  "\<bar>n\<bar> < 2 ^ 24 \<Longrightarrow> x \<le> of_int n / 2 \<Longrightarrow> f32_rnd x \<le> of_int n / 2"
  using f32_rnd_mono[of x "of_int n / 2"] f32_rnd_half[of n] by simp

lemma f32_rnd_ge_int:
  "\<bar>n\<bar> < 2 ^ 24 \<Longrightarrow> of_int n \<le> x \<Longrightarrow> of_int n \<le> f32_rnd x"
  using f32_rnd_mono[of "of_int n" x] f32_rnd_int[of n] by simp

lemma f32_rnd_le_int:
  "\<bar>n\<bar> < 2 ^ 24 \<Longrightarrow> x \<le> of_int n \<Longrightarrow> f32_rnd x \<le> of_int n"
  using f32_rnd_mono[of x "of_int n"] f32_rnd_int[of n] by simp

lemma quant_core:
  fixes s :: int
  assumes "0 \<le> x" "x \<le> of_int s" "s < 2 ^ 23"
  defines "k \<equiv> \<lfloor>x + 1 / 2\<rfloor>"
  shows "\<lfloor>quant_core x\<rfloor> = k \<or> \<lfloor>quant_core x\<rfloor> = k + 1"
    and "0 \<le> \<lfloor>quant_core x\<rfloor>" and "\<lfloor>quant_core x\<rfloor> \<le> s"
    and "0 \<le> f32_rnd x" and "f32_rnd x \<le> of_int s"
    and "1 / 2 \<le> quant_core x"
    and "2 * x \<in> \<int> \<Longrightarrow> \<lfloor>quant_core x\<rfloor> = k"
proof -
  have k: "of_int k \<le> x + 1 / 2" "x + 1 / 2 < of_int k + 1" unfolding k_def by linarith+
  have k0: "0 \<le> k" unfolding k_def using assms(1) by simp
  have ks: "k \<le> s" using k(1) assms(2) by linarith
  have s0: "0 \<le> s" using assms(1,2) by linarith
  have p0: "0 \<le> f32_rnd x" using f32_rnd_ge_int[of 0 x] assms(1) by simp
  have ps: "f32_rnd x \<le> of_int s"
    using f32_rnd_le_int[of s x] s0 assms(2,3) by simp
  have pl: "of_int k - 1 / 2 \<le> f32_rnd x"
  proof (cases "k = 0")
    case True
    with p0 show ?thesis by simp
  next
    case False
    have "real_of_int (2 * k - 1) / 2 \<le> x" using k(1) by simp
    moreover have "\<bar>2 * k - 1\<bar> < 2 ^ 24" using False k0 ks assms(3) by simp
    ultimately have "real_of_int (2 * k - 1) / 2 \<le> f32_rnd x" by (intro f32_rnd_ge_half)
    then show ?thesis by simp
  qed
  have pu: "f32_rnd x \<le> of_int k + 1 / 2"
  proof -
    have "x \<le> real_of_int (2 * k + 1) / 2" using k(2) by simp
    moreover have "\<bar>2 * k + 1\<bar> < 2 ^ 24" using k0 ks assms(3) by simp
    ultimately have "f32_rnd x \<le> real_of_int (2 * k + 1) / 2" by (intro f32_rnd_le_half)
    then show ?thesis by simp
  qed
  have rl: "of_int k \<le> quant_core x"
    unfolding quant_core_def using pl k0 ks assms(3) by (intro f32_rnd_ge_int) simp_all
  have rh: "1 / 2 \<le> quant_core x"
    unfolding quant_core_def using p0 f32_rnd_ge_half[of 1 "f32_rnd x + 1 / 2"] by simp
  have ru: "quant_core x \<le> of_int k + 1"
  proof -
    have "f32_rnd (f32_rnd x + 1 / 2) \<le> of_int (k + 1)"
      using pu k0 ks assms(3) by (intro f32_rnd_le_int) simp_all
    then show ?thesis by (simp add: quant_core_def)
  qed
  have rs: "quant_core x \<le> of_int s + 1 / 2"
  proof -
    have "f32_rnd (f32_rnd x + 1 / 2) \<le> of_int (2 * s + 1) / 2"
      using ps s0 assms(3) by (intro f32_rnd_le_half) simp_all
    then show ?thesis by (simp add: quant_core_def)
  qed
  show "\<lfloor>quant_core x\<rfloor> = k \<or> \<lfloor>quant_core x\<rfloor> = k + 1"
    using rl ru by (simp add: floor_eq_iff) linarith
  show "0 \<le> \<lfloor>quant_core x\<rfloor>" using rh by simp
  show "\<lfloor>quant_core x\<rfloor> \<le> s" using rs by (simp add: floor_le_iff)
  show "0 \<le> f32_rnd x" by (rule p0)
  show "f32_rnd x \<le> of_int s" by (rule ps)
  show "1 / 2 \<le> quant_core x" by (rule rh)
  show "\<lfloor>quant_core x\<rfloor> = k" if "2 * x \<in> \<int>"
  proof -
    from that obtain n where n: "2 * x = of_int n" by (auto elim: Ints_cases)
    then have xn: "x = of_int n / 2" by simp
    have "0 \<le> n" "n \<le> 2 * s" using assms(1,2) n by linarith+
    then have b: "\<bar>n\<bar> < 2 ^ 24" "\<bar>n + 1\<bar> < 2 ^ 24" using assms(3) by simp_all
    have e1: "f32_rnd x = x" unfolding xn using b(1) by (rule f32_rnd_half)
    have e2: "x + 1 / 2 = of_int (n + 1) / 2" by (simp add: xn)
    have "f32_rnd (x + 1 / 2) = x + 1 / 2" unfolding e2 using b(2) by (rule f32_rnd_half)
    then have "quant_core x = x + 1 / 2" unfolding quant_core_def e1 .
    then show ?thesis by (simp add: k_def)
  qed
qed


lemma fp_of_int_exact: "\<bar>n\<bar> < 2 ^ 24 \<Longrightarrow> fp_of_int n = Fin (of_int n)"
proof -
  assume a: "\<bar>n\<bar> < 2 ^ 24"
  then have "real_of_int \<bar>n\<bar> < real_of_int (2 ^ 24)" by (simp only: of_int_less_iff)
  then have "\<bar>real_of_int n\<bar> \<le> 2 ^ 31" by simp
  then show ?thesis unfolding fp_of_int_def by (simp add: fp_round_rnd f32_rnd_int[OF a])
qed




lemma shl1_minus1_range:
  assumes "0 \<le> n" "n \<le> 23"
  shows "shl1_minus1 n = Some (2 ^ nat n - 1)" "(0::int) \<le> 2 ^ nat n - 1" "(2::int) ^ nat n - 1 < 2 ^ 23"
proof -
  show "shl1_minus1 n = Some (2 ^ nat n - 1)" using assms by (simp add: shl1_minus1_def)
  show "(0::int) \<le> 2 ^ nat n - 1" by simp
  have "(2::int) ^ nat n \<le> 2 ^ 23" using assms by (intro power_increasing) simp_all
  then show "(2::int) ^ nat n - 1 < 2 ^ 23" by simp
qed





section \<open>Claims about quantizeUnorm and quantizeSnorm\<close>







lemma quantize_neg:
  fixes s :: int
  assumes "c \<le> 0" "- 1 \<le> c" "0 \<le> s" "s < 2 ^ 23"
  shows "fp_to_int (fp_add (fp_mul (Fin c) (fp_of_int s)) (Fin (- (1 / 2))))
           = Some (- \<lfloor>quant_core (- c * of_int s)\<rfloor>)"
proof -
  let ?x = "- c * of_int s"
  have "- c * of_int s \<le> 1 * real_of_int s"
    using assms(1-3) by (intro mult_right_mono) simp_all
  then have x: "0 \<le> ?x" "?x \<le> of_int s"
    using assms(1-3) by (simp_all add: mult_nonpos_nonneg)
  note core = quant_core[OF x assms(4)]
  have sr: "real_of_int s < 2 ^ 23"
    using assms(4) by (metis of_int_less_iff of_int_numeral of_int_power)
  have sc: "fp_of_int s = Fin (of_int s)" using assms(3,4) by (intro fp_of_int_exact) simp
  have "\<bar>c * of_int s\<bar> \<le> 2 ^ 31" using x sr by simp
  then have "fp_mul (Fin c) (fp_of_int s) = Fin (f32_rnd (c * of_int s))"
    unfolding sc by (simp add: fp_round_rnd)
  also have "f32_rnd (c * of_int s) = - f32_rnd ?x"
    using f32_rnd_minus[of ?x] by simp
  finally have m: "fp_mul (Fin c) (fp_of_int s) = Fin (- f32_rnd ?x)" .
  have "\<bar>- f32_rnd ?x + - (1 / 2)\<bar> \<le> 2 ^ 31" using core(4,5) sr by simp
  then have "fp_add (Fin (- f32_rnd ?x)) (Fin (- (1 / 2))) = Fin (f32_rnd (- f32_rnd ?x + - (1 / 2)))"
    by (simp add: fp_round_rnd)
  also have "f32_rnd (- f32_rnd ?x + - (1 / 2)) = - quant_core ?x"
    unfolding quant_core_def using f32_rnd_minus[of "f32_rnd ?x + 1 / 2"] by simp
  finally have a: "fp_add (Fin (- f32_rnd ?x)) (Fin (- (1 / 2))) = Fin (- quant_core ?x)" .
  define q where "q = \<lfloor>quant_core ?x\<rfloor>"
  have "s < 2 ^ 31" using assms(4) by simp
  with core(3) have q1: "q < 2 ^ 31" unfolding q_def by (rule le_less_trans)
  have q0: "0 \<le> q" unfolding q_def by (rule core(2))
  have ce: "\<lceil>- quant_core ?x\<rceil> = - q" unfolding q_def by (simp add: ceiling_def)
  have ng: "\<not> 0 \<le> - quant_core ?x" using core(6) by simp
  have "fp_to_int (Fin (- quant_core ?x)) = Some (- q)"
    unfolding fp_to_int.simps Let_def if_not_P[OF ng] ce using q0 q1 by simp
  then show ?thesis unfolding m a q_def .
qed





lemma f32_decode_nan: "f32_is_nan v \<Longrightarrow> f32_decode v = NaN"
  by (simp add: f32_decode_def)

lemma fp_round_0: "fp_round 0 = Fin 0"
  using fp_round_rnd[of 0] f32_rnd_int[of 0] by simp

lemma fp_round_half: "fp_round (1 / 2) = Fin (1 / 2)"
  using fp_round_rnd[of "1 / 2"] f32_rnd_half[of 1] by simp

lemma fp_of_int_Fin:
  assumes "\<bar>m\<bar> \<le> 2 ^ 31"
  shows "fp_of_int m = Fin (f32_rnd (of_int m))"
proof -
  have "real_of_int \<bar>m\<bar> \<le> real_of_int (2 ^ 31)" using assms by (simp only: of_int_le_iff)
  then have "\<bar>real_of_int m\<bar> \<le> 2 ^ 31" by simp
  then show ?thesis unfolding fp_of_int_def by (rule fp_round_rnd)
qed

lemma quantizeUnorm_nan:
  assumes "f32_is_nan v" "0 \<le> bits" "bits \<le> 30"
  shows "quantizeUnorm v bits = Some 0"
proof -
  define m :: int where "m = 2 ^ nat bits - 1"
  have sh: "shl1_minus1 bits = Some m" using assms(2,3) by (simp add: shl1_minus1_def m_def)
  have "(2::int) ^ nat bits \<le> 2 ^ 30" using assms(2,3) by (intro power_increasing) simp_all
  then have "\<bar>m\<bar> \<le> 2 ^ 31" unfolding m_def by simp
  then have sc: "fp_of_int m = Fin (f32_rnd (of_int m))" by (rule fp_of_int_Fin)
  show ?thesis
    unfolding quantizeUnorm_def sh f32_decode_nan[OF assms(1)] option.case Let_def sc
    by (simp add: fp_ge_def fp_round_0 fp_round_half)
qed

lemma quantizeSnorm_nan:
  assumes "f32_is_nan v" "1 \<le> bits" "bits \<le> 24"
  shows "quantizeSnorm v bits = Some (- (2 ^ nat (bits - 1) - 1))"
proof -
  define s :: int where "s = 2 ^ nat (bits - 1) - 1"
  have b: "0 \<le> bits - 1" "bits - 1 \<le> 23" using assms(2,3) by simp_all
  note sh = shl1_minus1_range[OF b, folded s_def]
  have "quantizeSnorm v bits
      = fp_to_int (fp_add (fp_mul (Fin (- 1)) (fp_of_int s)) (Fin (- (1 / 2))))"
    unfolding quantizeSnorm_def sh(1) f32_decode_nan[OF assms(1)] option.case Let_def
    by (simp add: fp_ge_def)
  also have "\<dots> = Some (- \<lfloor>quant_core (- (- 1) * of_int s)\<rfloor>)"
    using sh(2,3) by (intro quantize_neg) simp_all
  also have "\<lfloor>quant_core (- (- 1) * of_int s)\<rfloor> = s"
  proof -
    have x: "0 \<le> real_of_int s" "real_of_int s \<le> of_int s" using sh(2) by simp_all
    have "2 * real_of_int s \<in> \<int>" by (metis Ints_of_int of_int_mult of_int_numeral)
    from quant_core(7)[OF x sh(3) this] show ?thesis by simp
  qed
  finally show ?thesis by (simp add: s_def)
qed

text \<open>
  Claim C10, amended: a NaN fails both \<^verbatim>\<open>v >= 0\<close> and \<^verbatim>\<open>v >= -1\<close>, so it is clamped
  to 0 by quantizeUnorm and to -1 by quantizeSnorm. For every NaN \<open>v\<close>,
  \<^verbatim>\<open>quantizeUnorm(v, bits) = 0\<close> for \<open>0 \<le> bits \<le> 30\<close> (every bit width for which
  \<^verbatim>\<open>(1 << bits) - 1\<close> is defined), and
  \<^verbatim>\<open>quantizeSnorm(v, bits) = -(2^(bits-1) - 1)\<close> for \<open>1 \<le> bits \<le> 24\<close>.
\<close>

theorem quantize_nan_clamped:
  assumes "f32_is_nan v"
  shows "(0 \<le> bits \<and> bits \<le> 30 \<longrightarrow> quantizeUnorm v bits = Some 0)
       \<and> (1 \<le> bits \<and> bits \<le> 24 \<longrightarrow> quantizeSnorm v bits = Some (- (2 ^ nat (bits - 1) - 1)))"
  using quantizeUnorm_nan[OF assms] quantizeSnorm_nan[OF assms] by simp

theorem quantize_nan_clamped_witness:
  "f32_is_nan 0x7FC00000 \<and> f32_is_nan 0xFFFFFFFF \<and>
   quantizeUnorm 0x7FC00000 8 = Some 0 \<and> quantizeSnorm 0x7FC00000 8 = Some (- 127) \<and>
   quantizeUnorm 0xFFFFFFFF 30 = Some 0 \<and> quantizeSnorm 0xFFFFFFFF 24 = Some (- 8388607)"
proof -
  have n: "f32_is_nan 0x7FC00000" "f32_is_nan 0xFFFFFFFF" by (simp_all add: f32_decode_defs)
  show ?thesis
    using n quantize_nan_clamped[OF n(1), of 8] quantize_nan_clamped[OF n(2), of 30]
      quantize_nan_clamped[OF n(2), of 24]
    by simp
qed

text \<open>
  Claim C10, as stated, puts no bound on \<open>bits\<close>. For \<open>bits = 25\<close> the scale
  \<open>2^24 - 1\<close> is still exact, but \<open>-(2^24 - 1) - 0.5\<close> is not a float: it rounds to
  \<open>-2^24\<close>, so \<^verbatim>\<open>quantizeSnorm(NaN, 25) = -16777216\<close> and not \<open>-(2^24 - 1) = -16777215\<close>.
\<close>

theorem quantizeSnorm_nan_counterexample:
  "f32_is_nan 0x7FC00000 \<and> quantizeSnorm 0x7FC00000 25 = Some (- 16777216) \<and>
   - (2 ^ (25 - 1) - 1) = (- 16777215 :: int)"
proof -
  have n: "f32_is_nan 0x7FC00000" by (simp add: f32_decode_defs)
  have sh: "shl1_minus1 (25 - 1) = Some 16777215" by (simp add: shl1_minus1_def)
  have sc: "fp_of_int 16777215 = Fin 16777215" using fp_of_int_exact[of 16777215] by simp
  have m: "fp_round (- 16777215) = Fin (- 16777215)"
    using fp_round_rnd[of "- 16777215"] f32_rnd_int[of "- 16777215"] by simp
  have a: "fp_round (- (33554431 / 2)) = Fin (- 16777216)"
    by (subst fp_round_at[of 149]) (simp_all add: rne_def)
  have "quantizeSnorm 0x7FC00000 25 = Some (- 16777216)"
    unfolding quantizeSnorm_def sh f32_decode_nan[OF n] option.case Let_def sc
    by (simp add: fp_ge_def m a)
  then show ?thesis using n by simp
qed

section \<open>Default arguments of the declared entry points\<close>

text \<open>
  The header declares
  \<^verbatim>\<open>
  void optimizePostTransform(unsigned int* destination, const unsigned int* indices,
      size_t index_count, size_t vertex_count, unsigned int cache_size = 16,
      std::vector<unsigned int>* clusters = 0);
  void optimizeOverdraw(unsigned int* destination, const unsigned int* indices,
      size_t index_count, const float* vertex_positions, size_t vertex_positions_stride,
      size_t vertex_count, const std::vector<unsigned int>& clusters,
      unsigned int cache_size = 16, float threshold = 1);
  PostTransformCacheStatistics analyzePostTransform(const unsigned int* indices,
      size_t index_count, size_t vertex_count, unsigned int cache_size = 32);
  \<close>
  and the same with \<^verbatim>\<open>unsigned short\<close> indices. The bodies are not in the header: a
  declaration is modelled for an arbitrary body, which receives every parameter. An
  argument with a default is either omitted or given; an omitted one is replaced by the
  declared default. A call returns what the body computes from the index buffer and the
  other inputs (the written destination included). The null pointer default of
  \<^verbatim>\<open>clusters\<close> is \<open>None\<close>; the \<^verbatim>\<open>float\<close> default \<^verbatim>\<open>1\<close> is the pattern of \<open>1.0f\<close>.
\<close>

datatype 'a arg = Omitted | Given 'a

definition arg_or :: "'a \<Rightarrow> 'a arg \<Rightarrow> 'a" where
  "arg_or d a = (case a of Omitted \<Rightarrow> d | Given x \<Rightarrow> x)"

definition optimizePostTransform_decl ::
  "('i list \<Rightarrow> nat \<Rightarrow> nat \<Rightarrow> 32 word \<Rightarrow> 'c option \<Rightarrow> 'r)
    \<Rightarrow> 'i list \<Rightarrow> nat \<Rightarrow> nat \<Rightarrow> 32 word arg \<Rightarrow> 'c option arg \<Rightarrow> 'r" where
  "optimizePostTransform_decl body indices index_count vertex_count cache_size clusters =
     body indices index_count vertex_count (arg_or 16 cache_size) (arg_or None clusters)"

definition optimizeOverdraw_decl ::
  "('i list \<Rightarrow> nat \<Rightarrow> 'p \<Rightarrow> nat \<Rightarrow> nat \<Rightarrow> 'c \<Rightarrow> 32 word \<Rightarrow> float32 \<Rightarrow> 'r)
    \<Rightarrow> 'i list \<Rightarrow> nat \<Rightarrow> 'p \<Rightarrow> nat \<Rightarrow> nat \<Rightarrow> 'c \<Rightarrow> 32 word arg \<Rightarrow> float32 arg \<Rightarrow> 'r" where
  "optimizeOverdraw_decl body indices index_count vertex_positions vertex_positions_stride
       vertex_count clusters cache_size threshold =
     body indices index_count vertex_positions vertex_positions_stride vertex_count clusters
       (arg_or 16 cache_size) (arg_or 0x3F800000 threshold)"

definition analyzePostTransform_decl ::
  "('i list \<Rightarrow> nat \<Rightarrow> nat \<Rightarrow> 32 word \<Rightarrow> 'r)
    \<Rightarrow> 'i list \<Rightarrow> nat \<Rightarrow> nat \<Rightarrow> 32 word arg \<Rightarrow> 'r" where
  "analyzePostTransform_decl body indices index_count vertex_count cache_size =
     body indices index_count vertex_count (arg_or 32 cache_size)"

text \<open>
  Claim C7. Calling optimizePostTransform or optimizeOverdraw without \<^verbatim>\<open>cache_size\<close> is
  calling it with \<^verbatim>\<open>cache_size = 16\<close>; calling analyzePostTransform without it is calling
  it with \<^verbatim>\<open>cache_size = 32\<close>; calling optimizeOverdraw without \<^verbatim>\<open>threshold\<close> is
  calling it with \<^verbatim>\<open>threshold = 1.0\<close>. This holds for every body and all other arguments;
  an argument that is given reaches the body unchanged.
\<close>

theorem default_arguments:
  "optimizePostTransform_decl body1 indices index_count vertex_count Omitted clusters
     = optimizePostTransform_decl body1 indices index_count vertex_count (Given 16) clusters
   \<and> optimizeOverdraw_decl body2 indices index_count positions stride vertex_count cl Omitted threshold
     = optimizeOverdraw_decl body2 indices index_count positions stride vertex_count cl (Given 16) threshold
   \<and> analyzePostTransform_decl body3 indices index_count vertex_count Omitted
     = analyzePostTransform_decl body3 indices index_count vertex_count (Given 32)
   \<and> optimizeOverdraw_decl body2 indices index_count positions stride vertex_count cl cache_size Omitted
     = optimizeOverdraw_decl body2 indices index_count positions stride vertex_count cl cache_size
         (Given 0x3F800000)
   \<and> f32_value 0x3F800000 = 1
   \<and> optimizePostTransform_decl body1 indices index_count vertex_count (Given c) (Given p)
     = body1 indices index_count vertex_count c p
   \<and> optimizeOverdraw_decl body2 indices index_count positions stride vertex_count cl (Given c) (Given t)
     = body2 indices index_count positions stride vertex_count cl c t
   \<and> analyzePostTransform_decl body3 indices index_count vertex_count (Given c)
     = body3 indices index_count vertex_count c"
  by (simp add: optimizePostTransform_decl_def optimizeOverdraw_decl_def analyzePostTransform_decl_def
      arg_or_def f32_value_def f32_magnitude_def f32_sign_def f32_exponent_def f32_mantissa_def)

section \<open>The index optimizers, from the specification\<close>

text \<open>
  The header only declares \<^verbatim>\<open>optimizePostTransform\<close>, \<^verbatim>\<open>optimizeOverdraw\<close> and
  \<^verbatim>\<open>optimizePreTransform\<close>; their bodies are not among the sources. They are modelled
  from sections 3, 4.2, 4.4 and 4.6 of the specification. An index is a natural number
  (the 16-bit and 32-bit overloads differ only in how large \<open>vertex_count\<close> can be), an
  index buffer a list of indices, a vertex buffer a list of records.
\<close>

text \<open>
  Modelled from the spec: the index buffer of section 3, "triangles are consecutive
  triples". \<open>triangle indices t\<close> is triangle \<open>t\<close>; \<open>triangle_mset\<close> is the buffer as a
  multiset of triangles, each an unordered triple (a multiset) of vertex indices.
\<close>

definition triangle :: "nat list \<Rightarrow> nat \<Rightarrow> nat list" where
  "triangle indices t = [indices ! (3 * t), indices ! (3 * t + 1), indices ! (3 * t + 2)]"

definition triangle_mset :: "nat list \<Rightarrow> nat multiset multiset" where
  "triangle_mset indices = mset (map (\<lambda>t. mset (triangle indices t)) [0..<length indices div 3])"

text \<open>
  Modelled from the spec: the invariants of an index buffer in section 3,
  \<open>index_count % 3 == 0\<close> and each index \<open>< vertex_count\<close>.
\<close>

definition valid_indices :: "nat list \<Rightarrow> nat \<Rightarrow> bool" where
  "valid_indices indices vertex_count =
     (length indices mod 3 = 0 \<and> (\<forall>i \<in> set indices. i < vertex_count))"

text \<open>
  Modelled from the spec: the invariants of a cluster list in section 3 and property 2 of
  section 8: strictly increasing triangle offsets, every entry at most the triangle
  count, first element 0 (an empty mesh may have no cluster).
\<close>

definition valid_clusters :: "nat list \<Rightarrow> nat \<Rightarrow> bool" where
  "valid_clusters clusters n =
     (sorted_wrt (<) clusters \<and> (\<forall>c \<in> set clusters. c \<le> n)
      \<and> (if n = 0 then True else clusters \<noteq> [] \<and> hd clusters = 0))"

subsection \<open>Post-transform optimizer (section 4.2)\<close>

text \<open>
  Modelled from the spec: the state of the Tipsify walk of section 4.2. \<open>emitted\<close> is the
  list of triangles written so far, in output order (a triangle is live while it is not
  in it); \<open>stamps\<close> gives each vertex the time stamp it received when it was last emitted
  (none before); \<open>now\<close> is the current time stamp; \<open>cursor\<close> is the cursor over the input
  vertex order; \<open>cluster_starts\<close> is the optional cluster output.
\<close>

record tipsify_state =
  emitted :: "nat list"
  stamps :: "nat \<Rightarrow> nat option"
  now :: nat
  cursor :: nat
  cluster_starts :: "nat list"

text \<open>
  Modelled from the spec: step 1, the per-vertex triangle adjacency (one entry per
  corner), and step 2, the live triangles of a vertex; the live count is their number.
\<close>

definition adjacency :: "nat list \<Rightarrow> nat \<Rightarrow> nat list" where
  "adjacency indices v =
     concat (map (\<lambda>t. concat (map (\<lambda>c. if indices ! (3 * t + c) = v then [t] else []) [0, 1, 2]))
       [0..<length indices div 3])"

definition live_triangles :: "nat list \<Rightarrow> tipsify_state \<Rightarrow> nat \<Rightarrow> nat list" where
  "live_triangles indices st v = filter (\<lambda>t. t \<notin> set (emitted st)) (adjacency indices v)"

text \<open>
  Modelled from the spec: steps 3 and 5. Emitting a triangle appends it to the output and
  gives its three vertices fresh time stamps; a triangle already emitted is skipped.
  Emitting the fan of \<open>f\<close> emits all remaining live triangles incident to \<open>f\<close>, in the
  order of the adjacency list.
\<close>

definition emit_triangle :: "nat list \<Rightarrow> nat \<Rightarrow> tipsify_state \<Rightarrow> tipsify_state" where
  "emit_triangle indices t st =
     (if t \<in> set (emitted st) then st
      else st\<lparr>emitted := emitted st @ [t],
              stamps := (stamps st)(indices ! (3 * t) \<mapsto> now st,
                                    indices ! (3 * t + 1) \<mapsto> now st + 1,
                                    indices ! (3 * t + 2) \<mapsto> now st + 2),
              now := now st + 3\<rparr>)"

definition emit_fan :: "nat list \<Rightarrow> nat \<Rightarrow> tipsify_state \<Rightarrow> tipsify_state" where
  "emit_fan indices f st = fold (emit_triangle indices) (adjacency indices f) st"

text \<open>
  Modelled from the spec: the FIFO cache model of section 4.2, a vertex is in the cache
  iff \<open>(current_timestamp - its_timestamp) + 3 < cache_size\<close>; and the priority of step
  4, the estimated cache position minus twice the live count. The best candidate has the
  highest priority, ties broken by lowest vertex index.
\<close>

definition in_cache :: "nat \<Rightarrow> tipsify_state \<Rightarrow> nat \<Rightarrow> bool" where
  "in_cache cache_size st v =
     (case stamps st v of None \<Rightarrow> False | Some ts \<Rightarrow> (now st - ts) + 3 < cache_size)"

definition priority :: "nat list \<Rightarrow> tipsify_state \<Rightarrow> nat \<Rightarrow> int" where
  "priority indices st v =
     (case stamps st v of None \<Rightarrow> 0 | Some ts \<Rightarrow> int (now st - ts))
       - 2 * int (length (live_triangles indices st v))"

definition best_candidate :: "(nat \<Rightarrow> int) \<Rightarrow> nat list \<Rightarrow> nat option" where
  "best_candidate prio vs =
     (case vs of [] \<Rightarrow> None
      | v # ws \<Rightarrow> Some (fold (\<lambda>w b. if prio b < prio w then w else b) ws v))"

text \<open>
  Modelled from the spec: step 4 and step 6. The next fanning vertex is the best cached
  vertex that still has live triangles; if there is none, the cursor advances to the next
  vertex with live triangles, which starts a new cluster at the current triangle-write
  position. \<open>None\<close> when no vertex has a live triangle.
\<close>

definition next_fan :: "nat list \<Rightarrow> nat \<Rightarrow> nat \<Rightarrow> tipsify_state \<Rightarrow> (nat \<times> tipsify_state) option" where
  "next_fan indices vertex_count cache_size st =
     (case best_candidate (priority indices st)
            (filter (\<lambda>v. in_cache cache_size st v \<and> live_triangles indices st v \<noteq> [])
               [0..<vertex_count]) of
        Some f \<Rightarrow> Some (f, st)
      | None \<Rightarrow>
          (case find (\<lambda>v. live_triangles indices st v \<noteq> []) [cursor st..<vertex_count] of
             None \<Rightarrow> None
           | Some v \<Rightarrow>
               Some (v, st\<lparr>cursor := v,
                           cluster_starts := cluster_starts st @ [length (emitted st)]\<rparr>)))"

text \<open>
  Modelled from the spec: the walk, started with nothing emitted (the first fan comes
  from the cursor, which opens cluster 0). Each round emits at least one triangle, so
  as many rounds as there are triangles suffice; \<open>optimizePostTransform\<close> returns the
  new index buffer and the cluster list.
\<close>

primrec tipsify_loop :: "nat list \<Rightarrow> nat \<Rightarrow> nat \<Rightarrow> nat \<Rightarrow> tipsify_state \<Rightarrow> tipsify_state" where
  "tipsify_loop indices vertex_count cache_size 0 st = st"
| "tipsify_loop indices vertex_count cache_size (Suc n) st =
     (case next_fan indices vertex_count cache_size st of
        None \<Rightarrow> st
      | Some (f, st') \<Rightarrow>
          tipsify_loop indices vertex_count cache_size n (emit_fan indices f st'))"

definition optimizePostTransform :: "nat list \<Rightarrow> nat \<Rightarrow> nat \<Rightarrow> nat list \<times> nat list" where
  "optimizePostTransform indices vertex_count cache_size =
     (let st = tipsify_loop indices vertex_count cache_size (length indices div 3)
                 \<lparr>emitted = [], stamps = (\<lambda>v. None), now = 0, cursor = 0, cluster_starts = []\<rparr>
      in (concat (map (triangle indices) (emitted st)), cluster_starts st))"

lemma adjacency_iff:
  "t \<in> set (adjacency indices v) \<longleftrightarrow>
     t < length indices div 3 \<and>
     (indices ! (3 * t) = v \<or> indices ! (3 * t + 1) = v \<or> indices ! (3 * t + 2) = v)"
  unfolding adjacency_def by (auto split: if_splits)

lemma emitted_emit_triangle:
  "emitted (emit_triangle indices t st) =
     (if t \<in> set (emitted st) then emitted st else emitted st @ [t])"
  and cursor_emit_triangle: "cursor (emit_triangle indices t st) = cursor st"
  and clusters_emit_triangle: "cluster_starts (emit_triangle indices t st) = cluster_starts st"
  by (simp_all add: emit_triangle_def)

lemma fold_emit:
  "distinct (emitted st) \<Longrightarrow> distinct (emitted (fold (emit_triangle indices) ts st))"
  "set (emitted (fold (emit_triangle indices) ts st)) = set (emitted st) \<union> set ts"
  "cursor (fold (emit_triangle indices) ts st) = cursor st"
  "cluster_starts (fold (emit_triangle indices) ts st) = cluster_starts st"
proof (induction ts arbitrary: st)
  case Nil
  { case 1 then show ?case by simp }
  { case 2 show ?case by simp }
  { case 3 show ?case by simp }
  { case 4 show ?case by simp }
next
  case (Cons t ts)
  { case 1
    then have "distinct (emitted (emit_triangle indices t st))"
      by (simp add: emitted_emit_triangle)
    then show ?case using Cons.IH(1) by simp }
  { case 2 show ?case
      using Cons.IH(2)[of "emit_triangle indices t st"]
      by (auto simp: emitted_emit_triangle split: if_splits) }
  { case 3 show ?case using Cons.IH(3) by (simp add: cursor_emit_triangle) }
  { case 4 show ?case using Cons.IH(4) by (simp add: clusters_emit_triangle) }
qed

lemma best_candidate_mem: "best_candidate prio vs = Some f \<Longrightarrow> f \<in> set vs"
proof -
  have "fold (\<lambda>w b. if prio b < prio w then w else b) ws v \<in> set (v # ws)" for v ws
    by (induction ws arbitrary: v) (auto split: if_splits)
  then show "best_candidate prio vs = Some f \<Longrightarrow> f \<in> set vs"
    unfolding best_candidate_def by (auto split: list.splits)
qed

lemma best_candidate_None: "best_candidate prio vs = None \<longleftrightarrow> vs = []"
  unfolding best_candidate_def by (auto split: list.splits)

text \<open>
  The invariant of the walk: no triangle is emitted twice, only triangles of the mesh
  are emitted, and every vertex the cursor has passed has no live triangle left.
\<close>

definition tipsify_inv :: "nat list \<Rightarrow> tipsify_state \<Rightarrow> bool" where
  "tipsify_inv indices st =
     (distinct (emitted st) \<and> set (emitted st) \<subseteq> {0..<length indices div 3}
      \<and> (\<forall>v < cursor st. live_triangles indices st v = []))"

lemma live_triangles_empty_iff:
  "live_triangles indices st v = [] \<longleftrightarrow> set (adjacency indices v) \<subseteq> set (emitted st)"
  unfolding live_triangles_def by (auto simp: filter_empty_conv)

lemma next_fan_Some:
  assumes "next_fan indices vertex_count cache_size st = Some (f, st')"
    and "\<forall>v < cursor st. live_triangles indices st v = []"
  shows "emitted st' = emitted st" and "live_triangles indices st f \<noteq> []"
    and "\<forall>v < cursor st'. live_triangles indices st v = []"
proof -
  let ?cands = "filter (\<lambda>v. in_cache cache_size st v \<and> live_triangles indices st v \<noteq> [])
               [0..<vertex_count]"
  have "emitted st' = emitted st \<and> live_triangles indices st f \<noteq> []
     \<and> (\<forall>v < cursor st'. live_triangles indices st v = [])"
  proof (cases "best_candidate (priority indices st) ?cands")
    case (Some g)
    with assms(1) have e: "g = f" "st' = st" by (simp_all add: next_fan_def)
    from best_candidate_mem[OF Some] have "live_triangles indices st g \<noteq> []" by simp
    with e assms(2) show ?thesis by simp
  next
    case None
    with assms(1) obtain v where
      f: "find (\<lambda>v. live_triangles indices st v \<noteq> []) [cursor st..<vertex_count] = Some v"
      and e: "f = v" "st' = st\<lparr>cursor := v, cluster_starts := cluster_starts st @ [length (emitted st)]\<rparr>"
      by (auto simp: next_fan_def split: option.splits)
    from f obtain i where i: "i < vertex_count - cursor st" "live_triangles indices st v \<noteq> []"
      "v = cursor st + i" "\<forall>j<i. live_triangles indices st (cursor st + j) = []"
      by (auto simp: find_Some_iff)
    have "live_triangles indices st u = []" if "u < v" for u
    proof (cases "u < cursor st")
      case True
      with assms(2) show ?thesis by simp
    next
      case False
      then have "u = cursor st + (u - cursor st)" "u - cursor st < i" using that i(3) by simp_all
      with i(4) show ?thesis by metis
    qed
    with e i(2) show ?thesis by simp
  qed
  then show "emitted st' = emitted st" and "live_triangles indices st f \<noteq> []"
    and "\<forall>v < cursor st'. live_triangles indices st v = []" by simp_all
qed

lemma next_fan_None:
  assumes "next_fan indices vertex_count cache_size st = None" and "cursor st \<le> v" "v < vertex_count"
  shows "live_triangles indices st v = []"
proof -
  from assms(1) have "find (\<lambda>v. live_triangles indices st v \<noteq> []) [cursor st..<vertex_count] = None"
    by (auto simp: next_fan_def split: option.splits)
  then show ?thesis using assms(2,3) by (auto simp: find_None_iff)
qed

lemma tipsify_step:
  assumes "tipsify_inv indices st"
    and "next_fan indices vertex_count cache_size st = Some (f, st')"
  shows "tipsify_inv indices (emit_fan indices f st')"
    and "length (emitted st) < length (emitted (emit_fan indices f st'))"
proof -
  from assms(1) have d: "distinct (emitted st)" and s: "set (emitted st) \<subseteq> {0..<length indices div 3}"
    and c: "\<forall>v < cursor st. live_triangles indices st v = []"
    by (simp_all add: tipsify_inv_def)
  note nf = next_fan_Some[OF assms(2) c]
  let ?st = "emit_fan indices f st'"
  have d': "distinct (emitted ?st)"
    unfolding emit_fan_def using d nf(1) by (intro fold_emit(1)) simp
  have e': "set (emitted ?st) = set (emitted st) \<union> set (adjacency indices f)"
    unfolding emit_fan_def fold_emit(2) nf(1) by simp
  have s': "set (emitted ?st) \<subseteq> {0..<length indices div 3}"
    unfolding e' using s by (auto simp: adjacency_iff)
  have c': "\<forall>v < cursor ?st. live_triangles indices ?st v = []"
    using nf(3) unfolding emit_fan_def fold_emit(3) live_triangles_empty_iff
    unfolding e'[unfolded emit_fan_def] by auto
  show "tipsify_inv indices ?st" unfolding tipsify_inv_def using d' s' c' by simp
  from nf(2) obtain t where "t \<in> set (adjacency indices f)" "t \<notin> set (emitted st)"
    unfolding live_triangles_def by (auto simp: filter_empty_conv)
  then have "set (emitted st) \<subset> set (emitted ?st)" unfolding e' by auto
  then have "card (set (emitted st)) < card (set (emitted ?st))"
    by (intro psubset_card_mono) simp_all
  then show "length (emitted st) < length (emitted ?st)"
    using d d' by (simp add: distinct_card)
qed

lemma tipsify_loop_progress:
  assumes "tipsify_inv indices st"
  shows "tipsify_inv indices (tipsify_loop indices vertex_count cache_size n st)
     \<and> (next_fan indices vertex_count cache_size
           (tipsify_loop indices vertex_count cache_size n st) = None
        \<or> length (emitted st) + n
             \<le> length (emitted (tipsify_loop indices vertex_count cache_size n st)))"
  using assms
proof (induction n arbitrary: st)
  case 0
  then show ?case by simp
next
  case (Suc n)
  show ?case
  proof (cases "next_fan indices vertex_count cache_size st")
    case None
    with Suc.prems show ?thesis by simp
  next
    case (Some p)
    obtain f st' where p: "p = (f, st')" by (cases p)
    note step = tipsify_step[OF Suc.prems Some[unfolded p]]
    from Suc.IH[OF step(1)] step(2) show ?thesis
      unfolding tipsify_loop.simps Some p by auto
  qed
qed

lemma valid_indices_corner:
  assumes "valid_indices indices vertex_count" "t < length indices div 3"
  shows "indices ! (3 * t) < vertex_count"
proof -
  from assms have "3 * t < length indices" unfolding valid_indices_def by auto
  then have "indices ! (3 * t) \<in> set indices" by simp
  with assms(1) show ?thesis unfolding valid_indices_def by blast
qed

lemma tipsify_complete:
  assumes "tipsify_inv indices st" and "valid_indices indices vertex_count"
    and "next_fan indices vertex_count cache_size st = None
         \<or> length indices div 3 \<le> length (emitted st)"
  shows "set (emitted st) = {0..<length indices div 3}"
proof -
  from assms(1) have d: "distinct (emitted st)" and s: "set (emitted st) \<subseteq> {0..<length indices div 3}"
    and c: "\<forall>v < cursor st. live_triangles indices st v = []"
    by (simp_all add: tipsify_inv_def)
  from assms(3) show ?thesis
  proof
    assume n: "next_fan indices vertex_count cache_size st = None"
    have "t \<in> set (emitted st)" if t: "t < length indices div 3" for t
    proof -
      let ?v = "indices ! (3 * t)"
      have v: "?v < vertex_count" using assms(2) t by (rule valid_indices_corner)
      have "live_triangles indices st ?v = []"
      proof (cases "?v < cursor st")
        case True
        with c show ?thesis by simp
      next
        case False
        then show ?thesis using v by (intro next_fan_None[OF n]) simp_all
      qed
      moreover have "t \<in> set (adjacency indices ?v)" using t by (simp add: adjacency_iff)
      ultimately show ?thesis unfolding live_triangles_empty_iff by blast
    qed
    with s show ?thesis by auto
  next
    assume "length indices div 3 \<le> length (emitted st)"
    then have "card {0..<length indices div 3} \<le> card (set (emitted st))"
      using d by (simp add: distinct_card)
    with s show ?thesis by (intro card_seteq) simp_all
  qed
qed

lemma triangle_mset_append:
  assumes "length xs = 3"
  shows "triangle_mset (xs @ ys) = add_mset (mset xs) (triangle_mset ys)"
proof -
  have n: "length (xs @ ys) div 3 = Suc (length ys div 3)" using assms by simp
  have t0: "triangle (xs @ ys) 0 = xs"
    using assms by (cases xs; cases "tl xs"; cases "tl (tl xs)") (auto simp: triangle_def)
  have ts: "triangle (xs @ ys) (Suc t) = triangle ys t" for t
    using assms by (simp add: triangle_def nth_append)
  have "[0..<Suc (length ys div 3)] = 0 # map Suc [0..<length ys div 3]"
    by (simp add: upt_conv_Cons map_Suc_upt del: upt_Suc)
  then show ?thesis
    unfolding triangle_mset_def n by (simp add: t0 ts comp_def del: upt_Suc)
qed

lemma triangle_mset_concat:
  "triangle_mset (concat (map (triangle indices) ts))
     = image_mset (\<lambda>t. mset (triangle indices t)) (mset ts)"
proof (induction ts)
  case Nil
  show ?case by (simp add: triangle_mset_def)
next
  case (Cons t ts)
  have "length (triangle indices t) = 3" by (simp add: triangle_def)
  then show ?case using Cons by (simp add: triangle_mset_append)
qed

lemma triangle_mset_permutation:
  assumes "mset ts = mset [0..<length indices div 3]"
  shows "triangle_mset (concat (map (triangle indices) ts)) = triangle_mset indices"
  unfolding triangle_mset_concat assms by (simp add: triangle_mset_def)

lemma optimizePostTransform_permutation:
  assumes "valid_indices indices vertex_count"
  shows "triangle_mset (fst (optimizePostTransform indices vertex_count cache_size))
           = triangle_mset indices"
proof -
  let ?init = "\<lparr>emitted = [], stamps = (\<lambda>v. None), now = 0, cursor = 0, cluster_starts = []\<rparr>"
  let ?st = "tipsify_loop indices vertex_count cache_size (length indices div 3) ?init"
  have "tipsify_inv indices ?init" by (simp add: tipsify_inv_def)
  from tipsify_loop_progress[OF this, of vertex_count cache_size "length indices div 3"]
  have inv: "tipsify_inv indices ?st"
    and "next_fan indices vertex_count cache_size ?st = None
         \<or> length indices div 3 \<le> length (emitted ?st)"
    by simp_all
  then have "set (emitted ?st) = {0..<length indices div 3}"
    using assms by (intro tipsify_complete) simp_all
  moreover have "distinct (emitted ?st)" using inv by (simp add: tipsify_inv_def)
  ultimately have "mset (emitted ?st) = mset [0..<length indices div 3]"
    by (intro set_eq_iff_mset_eq_distinct[THEN iffD1]) simp_all
  then show ?thesis
    unfolding optimizePostTransform_def Let_def fst_conv by (rule triangle_mset_permutation)
qed

subsection \<open>Overdraw optimizer (section 4.4)\<close>

text \<open>
  Modelled from the spec: the triangles of each cluster (section 3: the cluster whose
  start \<open>\<le>\<close> triangle index \<open><\<close> next cluster start, the last one ending at the triangle
  count).
\<close>

fun cluster_ranges :: "nat list \<Rightarrow> nat \<Rightarrow> nat list list" where
  "cluster_ranges [] n = []"
| "cluster_ranges [c] n = [[c..<n]]"
| "cluster_ranges (c # d # cs) n = [c..<d] # cluster_ranges (d # cs) n"

text \<open>
  Modelled from the spec: steps 2 to 4 of section 4.4, the greedy reordering of clusters.
  The scores of steps 1 to 3 (centroids, normals, the view directions, the ACMR guard)
  decide only which of the remaining clusters is appended next; the specification leaves
  the formula open, so the choice is the parameter \<open>pick\<close>, given the clusters chosen so
  far and the remaining ones. A choice outside the remaining clusters falls back to the
  first remaining one (lowest original index). The output concatenates the triangles of
  the clusters in the chosen order.
\<close>

function reorder_clusters :: "(nat list \<Rightarrow> nat list \<Rightarrow> nat) \<Rightarrow> nat list \<Rightarrow> nat list \<Rightarrow> nat list" where
  "reorder_clusters pick chosen [] = chosen"
| "reorder_clusters pick chosen (r # rs) =
     (let c = pick chosen (r # rs);
          c = (if c \<in> set (r # rs) then c else r)
      in reorder_clusters pick (chosen @ [c]) (remove1 c (r # rs)))"
  by pat_completeness auto
termination
  by (relation "measure (\<lambda>(pick, chosen, remaining). length remaining)")
    (auto simp: length_remove1 split: if_splits dest: length_pos_if_in_set)

definition optimizeOverdraw ::
  "(nat list \<Rightarrow> nat list \<Rightarrow> nat) \<Rightarrow> nat list \<Rightarrow> nat list \<Rightarrow> nat list" where
  "optimizeOverdraw pick indices clusters =
     (let ranges = cluster_ranges clusters (length indices div 3);
          order = reorder_clusters pick [] [0..<length ranges]
      in concat (map (\<lambda>i. concat (map (triangle indices) (ranges ! i))) order))"

subsection \<open>Pre-transform optimizer (section 4.6)\<close>

text \<open>
  Modelled from the spec: section 4.6. The new vertex order lists the vertices in the
  order of their first reference by \<open>indices\<close>, then the vertices never referenced, in
  their original relative order. \<open>destination\<close> holds the vertices in that order and
  \<open>indices\<close> is rewritten to refer to the new order: \<open>optimizePreTransform\<close> returns both.
\<close>

definition first_use :: "nat list \<Rightarrow> nat list" where
  "first_use indices = rev (remdups (rev indices))"

definition vertex_order :: "nat list \<Rightarrow> nat \<Rightarrow> nat list" where
  "vertex_order indices vertex_count =
     first_use indices @ filter (\<lambda>v. v \<notin> set indices) [0..<vertex_count]"

primrec position :: "nat \<Rightarrow> nat list \<Rightarrow> nat" where
  "position x [] = 0"
| "position x (y # ys) = (if x = y then 0 else Suc (position x ys))"

definition optimizePreTransform :: "'a list \<Rightarrow> nat list \<Rightarrow> nat \<Rightarrow> 'a list \<times> nat list" where
  "optimizePreTransform vertices indices vertex_count =
     (let order = vertex_order indices vertex_count
      in (map (\<lambda>v. vertices ! v) order, map (\<lambda>i. position i order) indices))"

lemma reorder_clusters_mset:
  "mset (reorder_clusters pick chosen remaining) = mset chosen + mset remaining"
proof (induction pick chosen remaining rule: reorder_clusters.induct)
  case (1 pick chosen)
  show ?case by simp
next
  case (2 pick chosen r rs)
  define c where "c = (if pick chosen (r # rs) \<in> set (r # rs) then pick chosen (r # rs) else r)"
  have m: "c \<in> set (r # rs)" unfolding c_def by simp
  have "mset (reorder_clusters pick chosen (r # rs))
      = mset (reorder_clusters pick (chosen @ [c]) (remove1 c (r # rs)))"
    by (simp add: c_def Let_def)
  also have "\<dots> = mset (chosen @ [c]) + mset (remove1 c (r # rs))"
    using "2.IH"[OF refl, of c] by (simp add: c_def)
  also have "\<dots> = mset chosen + add_mset c (mset (r # rs) - {#c#})"
    unfolding mset_append mset_remove1 by simp
  also have "add_mset c (mset (r # rs) - {#c#}) = mset (r # rs)"
    using m by (intro insert_DiffM) (simp only: set_mset_mset)
  finally show ?case .
qed

lemma concat_cluster_ranges:
  assumes "sorted_wrt (<) (c # cs)" "\<forall>x \<in> set (c # cs). x \<le> n"
  shows "concat (cluster_ranges (c # cs) n) = [c..<n]"
  using assms
proof (induction cs arbitrary: c)
  case Nil
  then show ?case by simp
next
  case (Cons d cs)
  then have "concat (cluster_ranges (d # cs) n) = [d..<n]" by (intro Cons.IH) simp_all
  moreover have "c \<le> d" "d \<le> n" using Cons.prems by simp_all
  ultimately show ?case
    using upt_add_eq_append[of c d "n - d"] by simp
qed

lemma cluster_ranges_partition:
  assumes "valid_clusters clusters n"
  shows "mset (concat (cluster_ranges clusters n)) = mset [0..<n]"
proof (cases clusters)
  case Nil
  with assms have "n = 0" by (auto simp: valid_clusters_def split: if_splits)
  with Nil show ?thesis by simp
next
  case (Cons c cs)
  with assms have s: "sorted_wrt (<) (c # cs)" "\<forall>x \<in> set (c # cs). x \<le> n"
    and h: "n \<noteq> 0 \<Longrightarrow> c = 0"
    by (auto simp: valid_clusters_def split: if_splits)
  have "concat (cluster_ranges (c # cs) n) = [c..<n]" using s by (rule concat_cluster_ranges)
  also have "\<dots> = [0..<n]" using h by (cases "n = 0") simp_all
  finally show ?thesis unfolding Cons by simp
qed

lemma optimizeOverdraw_permutation:
  assumes "valid_clusters clusters (length indices div 3)"
  shows "triangle_mset (optimizeOverdraw pick indices clusters) = triangle_mset indices"
proof -
  define ranges where "ranges = cluster_ranges clusters (length indices div 3)"
  define order where "order = reorder_clusters pick [] [0..<length ranges]"
  have o: "mset order = mset [0..<length ranges]"
    unfolding order_def by (simp add: reorder_clusters_mset)
  have "concat (map (\<lambda>i. concat (map (triangle indices) (ranges ! i))) os)
      = concat (map (triangle indices) (concat (map (\<lambda>i. ranges ! i) os)))" for os
    by (induction os) simp_all
  then have e: "optimizeOverdraw pick indices clusters
      = concat (map (triangle indices) (concat (map (\<lambda>i. ranges ! i) order)))"
    unfolding optimizeOverdraw_def Let_def ranges_def[symmetric] order_def[symmetric] .
  have "mset (concat (map (\<lambda>i. ranges ! i) order)) = (\<Sum>i \<in># mset order. mset (ranges ! i))"
    by (simp add: mset_concat comp_def flip: sum_mset_sum_list)
  also have "\<dots> = (\<Sum>i \<in># mset [0..<length ranges]. mset (ranges ! i))" unfolding o ..
  also have "\<dots> = mset (concat (map (\<lambda>i. ranges ! i) [0..<length ranges]))"
    by (simp add: mset_concat comp_def flip: sum_mset_sum_list)
  also have "map (\<lambda>i. ranges ! i) [0..<length ranges] = ranges" by (rule map_nth)
  also have "mset (concat ranges) = mset [0..<length indices div 3]"
    unfolding ranges_def using assms by (rule cluster_ranges_partition)
  finally show ?thesis unfolding e by (rule triangle_mset_permutation)
qed

lemma position_mem: "x \<in> set xs \<Longrightarrow> position x xs < length xs \<and> xs ! position x xs = x"
  by (induction xs) auto

lemma position_nth: "distinct xs \<Longrightarrow> j < length xs \<Longrightarrow> position (xs ! j) xs = j"
proof (induction xs arbitrary: j)
  case Nil
  then show ?case by simp
next
  case (Cons y ys)
  then show ?case by (cases j) auto
qed

lemma vertex_order_distinct: "distinct (vertex_order indices vertex_count)"
  unfolding vertex_order_def first_use_def by auto

lemma vertex_order_set:
  assumes "valid_indices indices vertex_count"
  shows "set (vertex_order indices vertex_count) = {0..<vertex_count}"
  using assms unfolding vertex_order_def first_use_def valid_indices_def by auto

lemma vertex_order_length:
  assumes "valid_indices indices vertex_count"
  shows "length (vertex_order indices vertex_count) = vertex_count"
proof -
  have "length (vertex_order indices vertex_count) = card (set (vertex_order indices vertex_count))"
    using vertex_order_distinct by (simp add: distinct_card)
  then show ?thesis unfolding vertex_order_set[OF assms] by simp
qed

lemma remdups_snoc: "remdups (ys @ [x]) = filter (\<lambda>y. y \<noteq> x) (remdups ys) @ [x]"
  by (induction ys) auto

lemma first_use_Cons: "first_use (x # xs) = x # filter (\<lambda>y. y \<noteq> x) (first_use xs)"
  unfolding first_use_def by (simp add: remdups_snoc rev_filter)

lemma first_use_set: "distinct (first_use xs)" "set (first_use xs) = set xs"
  unfolding first_use_def by simp_all

lemma first_use_sorted: "sorted_wrt (<) (map (\<lambda>v. position v xs) (first_use xs))"
proof (induction xs)
  case Nil
  show ?case by (simp add: first_use_def)
next
  case (Cons x xs)
  have "sorted_wrt (\<lambda>a b. position a xs < position b xs) (filter (\<lambda>y. y \<noteq> x) (first_use xs))"
    using Cons.IH unfolding sorted_wrt_map by (rule sorted_wrt_filter)
  then have "sorted_wrt (\<lambda>a b. position a (x # xs) < position b (x # xs))
      (filter (\<lambda>y. y \<noteq> x) (first_use xs))"
    by (rule sorted_wrt_mono_rel[rotated]) auto
  then show ?case unfolding first_use_Cons sorted_wrt_map by auto
qed

lemma first_use_map:
  assumes "inj_on r (set xs)"
  shows "first_use (map r xs) = map r (first_use xs)"
  using assms
proof (induction xs)
  case Nil
  show ?case by (simp add: first_use_def)
next
  case (Cons x xs)
  have i: "inj_on r (set xs)" using Cons.prems by simp
  have "filter (\<lambda>y. y \<noteq> r x) (map r (first_use xs)) = map r (filter (\<lambda>y. y \<noteq> x) (first_use xs))"
    unfolding filter_map comp_def
    using Cons.prems first_use_set(2)[of xs]
    by (intro arg_cong[where f = "map r"] filter_cong) (auto simp: inj_on_def)
  then show ?case unfolding list.map first_use_Cons Cons.IH[OF i] by simp
qed

lemma optimizePreTransform_renames:
  assumes "valid_indices indices vertex_count"
  defines "unref \<equiv> filter (\<lambda>v. v \<notin> set indices) [0..<vertex_count]"
  defines "order \<equiv> vertex_order indices vertex_count"
  defines "r \<equiv> (\<lambda>i. position i order)"
  shows "bij_betw r {0..<vertex_count} {0..<vertex_count}"
    and "snd (optimizePreTransform vertices indices vertex_count) = map r indices"
    and "\<forall>i<vertex_count. fst (optimizePreTransform vertices indices vertex_count) ! r i = vertices ! i"
    and "length (fst (optimizePreTransform vertices indices vertex_count)) = vertex_count"
    and "map (\<lambda>j. fst (optimizePreTransform vertices indices vertex_count) ! j)
           (snd (optimizePreTransform vertices indices vertex_count))
         = map (\<lambda>i. vertices ! i) indices"
    and "\<forall>k<length (first_use indices). r (first_use indices ! k) = k"
    and "\<forall>k<length unref. r (unref ! k) = length (first_use indices) + k"
    and "fst (optimizePreTransform vertices indices vertex_count)
         = map (\<lambda>v. vertices ! v) (first_use indices @ unref)"
    and "first_use (snd (optimizePreTransform vertices indices vertex_count))
         = [0..<length (first_use indices)]"
proof -
  have o: "order = first_use indices @ unref" unfolding order_def unref_def vertex_order_def ..
  have d: "distinct order" unfolding order_def by (rule vertex_order_distinct)
  have s: "set order = {0..<vertex_count}" unfolding order_def using assms(1) by (rule vertex_order_set)
  have l: "length order = vertex_count" unfolding order_def using assms(1) by (rule vertex_order_length)
  have p: "r i < vertex_count \<and> order ! r i = i" if "i < vertex_count" for i
    unfolding r_def using position_mem[of i order] that s l by simp
  have q: "r (order ! j) = j \<and> order ! j < vertex_count" if "j < vertex_count" for j
    unfolding r_def using position_nth[OF d, of j] that l s nth_mem[of j order] by auto
  show bij: "bij_betw r {0..<vertex_count} {0..<vertex_count}"
  proof (rule bij_betw_byWitness[where f' = "\<lambda>j. order ! j"])
    show "\<forall>a\<in>{0..<vertex_count}. order ! r a = a" using p by simp
    show "\<forall>a'\<in>{0..<vertex_count}. r (order ! a') = a'" using q by simp
    show "r ` {0..<vertex_count} \<subseteq> {0..<vertex_count}" using p by auto
    show "(\<lambda>j. order ! j) ` {0..<vertex_count} \<subseteq> {0..<vertex_count}" using q by auto
  qed
  show e: "snd (optimizePreTransform vertices indices vertex_count) = map r indices"
    unfolding optimizePreTransform_def Let_def r_def order_def by simp
  show f: "\<forall>i<vertex_count. fst (optimizePreTransform vertices indices vertex_count) ! r i = vertices ! i"
    unfolding optimizePreTransform_def Let_def fst_conv order_def[symmetric]
    using p l by simp
  show "length (fst (optimizePreTransform vertices indices vertex_count)) = vertex_count"
    unfolding optimizePreTransform_def Let_def fst_conv order_def[symmetric] using l by simp
  have v: "\<forall>i \<in> set indices. i < vertex_count" using assms(1) by (simp add: valid_indices_def)
  then show "map (\<lambda>j. fst (optimizePreTransform vertices indices vertex_count) ! j)
           (snd (optimizePreTransform vertices indices vertex_count))
         = map (\<lambda>i. vertices ! i) indices"
    unfolding e using f by simp
  show fu: "\<forall>k<length (first_use indices). r (first_use indices ! k) = k"
  proof (intro allI impI)
    fix k assume k: "k < length (first_use indices)"
    then have "k < length order" unfolding o by simp
    then have "position (order ! k) order = k" by (rule position_nth[OF d])
    moreover have "order ! k = first_use indices ! k" unfolding o using k by (simp add: nth_append)
    ultimately show "r (first_use indices ! k) = k" unfolding r_def by simp
  qed
  show "\<forall>k<length unref. r (unref ! k) = length (first_use indices) + k"
  proof (intro allI impI)
    fix k assume k: "k < length unref"
    then have "length (first_use indices) + k < length order" unfolding o by simp
    then have "position (order ! (length (first_use indices) + k)) order = length (first_use indices) + k"
      by (rule position_nth[OF d])
    moreover have "order ! (length (first_use indices) + k) = unref ! k" unfolding o by simp
    ultimately show "r (unref ! k) = length (first_use indices) + k" unfolding r_def by simp
  qed
  show "fst (optimizePreTransform vertices indices vertex_count)
         = map (\<lambda>v. vertices ! v) (first_use indices @ unref)"
    unfolding optimizePreTransform_def Let_def fst_conv order_def[symmetric] o ..
  have si: "set indices \<subseteq> {0..<vertex_count}" using v by auto
  have "inj_on r {0..<vertex_count}" using bij by (rule bij_betw_imp_inj_on)
  then have "inj_on r (set indices)" using si by (rule inj_on_subset)
  then have "first_use (map r indices) = map r (first_use indices)" by (rule first_use_map)
  also have "\<dots> = [0..<length (first_use indices)]"
    using fu by (intro nth_equalityI) simp_all
  finally show "first_use (snd (optimizePreTransform vertices indices vertex_count))
         = [0..<length (first_use indices)]" unfolding e .
qed

section \<open>Claim about the index optimizers\<close>

text \<open>
  Claim C6, amended: for every well-formed input, the output index buffers of
  optimizePostTransform and optimizeOverdraw are permutations of the input as a multiset
  of triangles (each unordered triple of vertex indices occurs with the same
  multiplicity). optimizePreTransform does not reorder triangles: it renames the vertex
  indices, triangle by triangle and in place, by the first-use renaming \<open>r\<close>. Writing
  \<open>first_use indices\<close> for the referenced vertices without repetition, in the order of
  their first occurrence in \<open>indices\<close>, and \<open>unref\<close> for the vertices of \<open>{0..<vertex_count}\<close>
  never referenced, in increasing order: \<open>r\<close> sends the \<open>k\<close>-th vertex of
  \<open>first_use indices\<close> to \<open>k\<close> and the \<open>k\<close>-th vertex of \<open>unref\<close> to
  \<open>length (first_use indices) + k\<close>. This \<open>r\<close> is a bijection on \<open>{0..<vertex_count}\<close>; the
  output indices are \<open>map r indices\<close>, so that the distinct output indices occur for the
  first time in the order \<open>0, 1, 2, \<dots>\<close>; the output vertex buffer lists the vertex
  records of \<open>first_use indices\<close> followed by those of \<open>unref\<close>; and each renamed
  index refers in the output vertex buffer to the vertex record the original index
  referred to, so the triangles are preserved as triples of vertex records.
\<close>

theorem index_optimizers_triangles:
  assumes "valid_indices indices vertex_count"
    and "valid_clusters clusters (length indices div 3)"
    and "length vertices = vertex_count"
  shows "triangle_mset (fst (optimizePostTransform indices vertex_count cache_size))
           = triangle_mset indices
     \<and> triangle_mset (optimizeOverdraw pick indices clusters) = triangle_mset indices
     \<and> distinct (first_use indices) \<and> set (first_use indices) = set indices
     \<and> sorted_wrt (<) (map (\<lambda>v. position v indices) (first_use indices))
     \<and> (\<exists>r. bij_betw r {0..<vertex_count} {0..<vertex_count}
            \<and> (\<forall>k<length (first_use indices). r (first_use indices ! k) = k)
            \<and> (\<forall>k<length (filter (\<lambda>v. v \<notin> set indices) [0..<vertex_count]).
                  r (filter (\<lambda>v. v \<notin> set indices) [0..<vertex_count] ! k)
                    = length (first_use indices) + k)
            \<and> snd (optimizePreTransform vertices indices vertex_count) = map r indices
            \<and> (\<forall>i<vertex_count.
                  fst (optimizePreTransform vertices indices vertex_count) ! r i = vertices ! i))
     \<and> first_use (snd (optimizePreTransform vertices indices vertex_count))
         = [0..<length (first_use indices)]
     \<and> fst (optimizePreTransform vertices indices vertex_count)
         = map (\<lambda>v. vertices ! v)
             (first_use indices @ filter (\<lambda>v. v \<notin> set indices) [0..<vertex_count])
     \<and> length (fst (optimizePreTransform vertices indices vertex_count)) = vertex_count
     \<and> map (\<lambda>j. fst (optimizePreTransform vertices indices vertex_count) ! j)
           (snd (optimizePreTransform vertices indices vertex_count))
         = map (\<lambda>i. vertices ! i) indices"
proof -
  note r = optimizePreTransform_renames[OF assms(1)]
  show ?thesis
    using optimizePostTransform_permutation[OF assms(1)] optimizeOverdraw_permutation[OF assms(2)]
      first_use_set[of indices] first_use_sorted[of indices]
      r(1) r(2)[of vertices] r(3)[of vertices] r(4)[of vertices] r(5)[of vertices]
      r(6) r(7) r(8)[of vertices] r(9)[of vertices]
    by blast
qed

text \<open>
  Claim C6, as stated, lists optimizePreTransform among the optimizers whose output index
  buffer is a permutation of the input triangles. Section 4.6 rewrites the indices to the
  new vertex order: for the indices \<open>[1, 2, 3, 0, 1, 2]\<close> on four vertices the output is
  \<open>[0, 1, 2, 3, 0, 1]\<close>, and the triple \<open>{1, 2, 3}\<close> of the input occurs nowhere in it.
\<close>

theorem optimizePreTransform_renames_counterexample:
  "valid_indices [1, 2, 3, 0, 1, 2] 4 \<and>
   optimizePreTransform [''a'', ''b'', ''c'', ''d''] [1, 2, 3, 0, 1, 2] 4
     = ([''b'', ''c'', ''d'', ''a''], [0, 1, 2, 3, 0, 1]) \<and>
   triangle_mset [0, 1, 2, 3, 0, 1] \<noteq> triangle_mset [1, 2, 3, 0, 1, 2]"
proof -
  have "count (triangle_mset [0, 1, 2, 3, 0, 1]) {#1, 2, 3#} = 0"
    by (simp add: triangle_mset_def triangle_def upt_conv_Cons)
  moreover have "count (triangle_mset [1, 2, 3, 0, 1, 2]) {#1, 2, 3#} = 1"
    by (simp add: triangle_mset_def triangle_def upt_conv_Cons)
  ultimately have "triangle_mset [0, 1, 2, 3, 0, 1] \<noteq> triangle_mset [1, 2, 3, 0, 1, 2]"
    by (metis zero_neq_one)
  moreover have "valid_indices [1, 2, 3, 0, 1, 2] 4" by (simp add: valid_indices_def)
  moreover have "optimizePreTransform [''a'', ''b'', ''c'', ''d''] [1, 2, 3, 0, 1, 2] 4
     = ([''b'', ''c'', ''d'', ''a''], [0, 1, 2, 3, 0, 1])"
    by (simp add: optimizePreTransform_def vertex_order_def first_use_def upt_conv_Cons)
  ultimately show ?thesis by simp
qed

text \<open>
  The theorem of claim C6 on a mesh of five vertices, one of them (vertex 1) never
  referenced: the indices \<open>[2, 3, 4, 0, 2, 3]\<close> use the vertices \<open>2, 3, 4, 0\<close> in this
  order, so the renaming is \<open>2 \<mapsto> 0\<close>, \<open>3 \<mapsto> 1\<close>, \<open>4 \<mapsto> 2\<close>, \<open>0 \<mapsto> 3\<close>, \<open>1 \<mapsto> 4\<close>, the output
  indices are \<open>[0, 1, 2, 3, 0, 1]\<close> and the output vertex buffer is \<open>c, d, e, a, b\<close>.
\<close>

theorem index_optimizers_triangles_witness:
  "valid_indices [2, 3, 4, 0, 2, 3] 5 \<and>
   valid_clusters [0, 1] (length [2, 3, 4, 0, 2, 3 :: nat] div 3) \<and>
   length [''a'', ''b'', ''c'', ''d'', ''e''] = 5 \<and>
   triangle_mset (fst (optimizePostTransform [2, 3, 4, 0, 2, 3] 5 16))
     = triangle_mset [2, 3, 4, 0, 2, 3] \<and>
   triangle_mset (optimizeOverdraw (\<lambda>chosen remaining. last remaining) [2, 3, 4, 0, 2, 3] [0, 1])
     = triangle_mset [2, 3, 4, 0, 2, 3] \<and>
   first_use [2, 3, 4, 0, 2, 3] = [2, 3, 4, 0] \<and>
   filter (\<lambda>v. v \<notin> set [2, 3, 4, 0, 2, 3]) [0..<5] = [1 :: nat] \<and>
   map (\<lambda>v. position v [2, 3, 4, 0, 2, 3]) [2, 3, 4, 0] = [0, 1, 2, 3] \<and>
   optimizePreTransform [''a'', ''b'', ''c'', ''d'', ''e''] [2, 3, 4, 0, 2, 3] 5
     = ([''c'', ''d'', ''e'', ''a'', ''b''], [0, 1, 2, 3, 0, 1]) \<and>
   (\<exists>r :: nat \<Rightarrow> nat. bij_betw r {0..<5} {0..<5}
      \<and> r 2 = 0 \<and> r 3 = 1 \<and> r 4 = 2 \<and> r 0 = 3 \<and> r 1 = 4
      \<and> [0, 1, 2, 3, 0, 1] = map r [2, 3, 4, 0, 2, 3]
      \<and> [''c'', ''d'', ''e'', ''a'', ''b''] ! r 0 = ''a''
      \<and> [''c'', ''d'', ''e'', ''a'', ''b''] ! r 1 = ''b''
      \<and> [''c'', ''d'', ''e'', ''a'', ''b''] ! r 2 = ''c''
      \<and> [''c'', ''d'', ''e'', ''a'', ''b''] ! r 3 = ''d''
      \<and> [''c'', ''d'', ''e'', ''a'', ''b''] ! r 4 = ''e'') \<and>
   first_use [0, 1, 2, 3, 0, 1] = [0, 1, 2, 3] \<and>
   map (\<lambda>j. [''c'', ''d'', ''e'', ''a'', ''b''] ! j) [0, 1, 2, 3, 0, 1]
     = map (\<lambda>i. [''a'', ''b'', ''c'', ''d'', ''e''] ! i) [2, 3, 4, 0, 2, 3]"
proof -
  have a: "valid_indices [2, 3, 4, 0, 2, 3] 5" by (simp add: valid_indices_def)
  have b: "valid_clusters [0, 1] (length [2, 3, 4, 0, 2, 3 :: nat] div 3)"
    by (simp add: valid_clusters_def)
  have c: "length [''a'', ''b'', ''c'', ''d'', ''e''] = 5" by simp
  have fu: "first_use [2, 3, 4, 0, 2, 3] = [2, 3, 4, 0]" by (simp add: first_use_def)
  have un: "filter (\<lambda>v. v \<notin> set [2, 3, 4, 0, 2, 3]) [0..<5] = [1 :: nat]"
    by (simp add: upt_conv_Cons)
  have po: "map (\<lambda>v. position v [2, 3, 4, 0, 2, 3]) [2, 3, 4, 0] = [0, 1, 2, 3]" by simp
  have e: "optimizePreTransform [''a'', ''b'', ''c'', ''d'', ''e''] [2, 3, 4, 0, 2, 3] 5
     = ([''c'', ''d'', ''e'', ''a'', ''b''], [0, 1, 2, 3, 0, 1])"
    by (simp add: optimizePreTransform_def vertex_order_def first_use_def upt_conv_Cons)
  note t = index_optimizers_triangles[OF a b c, of 16 "\<lambda>chosen remaining. last remaining",
      unfolded e fu un fst_conv snd_conv]
  note pt = t[THEN conjunct1]
  note od = t[THEN conjunct2, THEN conjunct1]
  note t5 = t[THEN conjunct2, THEN conjunct2, THEN conjunct2, THEN conjunct2, THEN conjunct2]
  note ex0 = t5[THEN conjunct1]
  note f0 = t5[THEN conjunct2, THEN conjunct1]
  note m = t5[THEN conjunct2, THEN conjunct2, THEN conjunct2, THEN conjunct2]
  from ex0 obtain r :: "nat \<Rightarrow> nat" where r: "bij_betw r {0..<5} {0..<5}"
      "\<forall>k<length [2, 3, 4, 0 :: nat]. r ([2, 3, 4, 0] ! k) = k"
      "\<forall>k<length [1 :: nat]. r ([1] ! k) = length [2, 3, 4, 0 :: nat] + k"
      "[0, 1, 2, 3, 0, 1] = map r [2, 3, 4, 0, 2, 3]"
      "\<forall>i<5. [''c'', ''d'', ''e'', ''a'', ''b''] ! r i = [''a'', ''b'', ''c'', ''d'', ''e''] ! i"
    by (elim conjE exE)
  have r1: "r 2 = 0" "r 3 = 1" "r 4 = 2" "r 0 = 3"
    using r(2)[rule_format, of 0] r(2)[rule_format, of 1] r(2)[rule_format, of 2]
      r(2)[rule_format, of 3] by simp_all
  have r2: "r 1 = 4" using r(3)[rule_format, of 0] by simp
  have r3: "[''c'', ''d'', ''e'', ''a'', ''b''] ! r 0 = ''a''"
    "[''c'', ''d'', ''e'', ''a'', ''b''] ! r 1 = ''b''"
    "[''c'', ''d'', ''e'', ''a'', ''b''] ! r 2 = ''c''"
    "[''c'', ''d'', ''e'', ''a'', ''b''] ! r 3 = ''d''"
    "[''c'', ''d'', ''e'', ''a'', ''b''] ! r 4 = ''e''"
    unfolding r1 r2 by simp_all
  have ex: "\<exists>r :: nat \<Rightarrow> nat. bij_betw r {0..<5} {0..<5}
      \<and> r 2 = 0 \<and> r 3 = 1 \<and> r 4 = 2 \<and> r 0 = 3 \<and> r 1 = 4
      \<and> [0, 1, 2, 3, 0, 1] = map r [2, 3, 4, 0, 2, 3]
      \<and> [''c'', ''d'', ''e'', ''a'', ''b''] ! r 0 = ''a''
      \<and> [''c'', ''d'', ''e'', ''a'', ''b''] ! r 1 = ''b''
      \<and> [''c'', ''d'', ''e'', ''a'', ''b''] ! r 2 = ''c''
      \<and> [''c'', ''d'', ''e'', ''a'', ''b''] ! r 3 = ''d''
      \<and> [''c'', ''d'', ''e'', ''a'', ''b''] ! r 4 = ''e''"
    by (intro exI[of _ r] conjI) (rule r(1) r1 r2 r(4) r3)+
  have u: "[0..<length [2, 3, 4, 0 :: nat]] = [0, 1, 2, 3]" by (simp add: upt_conv_Cons)
  have f: "first_use [0, 1, 2, 3, 0, 1] = [0, 1, 2, 3]" using f0 unfolding u .
  show ?thesis
    by (intro conjI) (rule a b c pt od fu un po e ex f m)+
qed

end
